theory Spec2Isabelle
  imports Complex_Main "HOL-Library.Word"
begin

section \<open>JavaScript values used by the bot\<close>

text \<open>
  A JavaScript \<^verbatim>\<open>Set\<close> keeps its members in insertion order and holds each member once.
  It is modelled as a list: \<open>js_add\<close> appends a member that is not there yet,
  \<open>js_delete\<close> removes it, \<open>js_size\<close> is the length.
\<close>

type_synonym 'a js_set = "'a list"

definition js_has :: "'a \<Rightarrow> 'a js_set \<Rightarrow> bool" where
  "js_has x s = (x \<in> set s)"

definition js_add :: "'a \<Rightarrow> 'a js_set \<Rightarrow> 'a js_set" where
  "js_add x s = (if x \<in> set s then s else s @ [x])"

definition js_delete :: "'a \<Rightarrow> 'a js_set \<Rightarrow> 'a js_set" where
  "js_delete x s = removeAll x s"

definition js_size :: "'a js_set \<Rightarrow> nat" where
  "js_size s = length s"

text \<open>
  The template literal \<^verbatim>\<open>`${Date.now()}`\<close> prints a non-negative integer in decimal.
\<close>

definition digit_char :: "nat \<Rightarrow> char" where
  "digit_char d = ''0123456789'' ! d"

fun decimal :: "nat \<Rightarrow> string" where
  "decimal n = (if n < 10 then [digit_char n] else decimal (n div 10) @ [digit_char (n mod 10)])"

declare decimal.simps [simp del]

text \<open>
  A JavaScript number is \<open>NaN\<close>, an infinity or a real. The sums of squares of 16-bit samples are
  integers that a double holds exactly for every segment shorter than \<open>2^23\<close> samples, and
  the comparisons with the thresholds 500 and 100 come out as over the reals, so the
  numbers are modelled as reals; \<open>0 / 0\<close> is \<open>NaN\<close>, a non-zero number divided by zero
  is an infinity, and every comparison with \<open>NaN\<close> is false.
\<close>

datatype js_number = NaN | PosInfinity | NegInfinity | Num real

fun js_less :: "js_number \<Rightarrow> real \<Rightarrow> bool" where
  "js_less NaN y = False"
| "js_less PosInfinity y = False"
| "js_less NegInfinity y = True"
| "js_less (Num x) y = (x < y)"

definition js_divide :: "real \<Rightarrow> real \<Rightarrow> js_number" where
  "js_divide x y =
     (if y = 0 then (if x = 0 then NaN else if 0 < x then PosInfinity else NegInfinity)
      else Num (x / y))"

fun js_sqrt :: "js_number \<Rightarrow> js_number" where
  "js_sqrt NaN = NaN"
| "js_sqrt PosInfinity = PosInfinity"
| "js_sqrt NegInfinity = NaN"
| "js_sqrt (Num x) = (if x < 0 then NaN else Num (sqrt x))"

section \<open>The audio processor (src/audioProcessor.ts)\<close>

type_synonym byte = "8 word"

record user =
  user_id :: string
  username :: string

text \<open>
  The fields of \<^verbatim>\<open>AudioProcessor\<close> that the scheduler reads and writes, together with
  the parts of the world its methods touch: the pending \<^verbatim>\<open>setTimeout\<close> callbacks (one
  per processing key), the files of the scratch directory, the calls made to
  \<^verbatim>\<open>onTranscription\<close> so far (user id, user name, text), and the values of
  \<^verbatim>\<open>energy\<close> that line 113 has printed so far, one for each evaluation of
  \<^verbatim>\<open>this.calculateAudioEnergy(filename)\<close> in line 112 that returned.
\<close>

record audio_processor =
  processingQueue :: "string js_set"
  activeUsers :: "string js_set"
  timeouts :: "string list"
  files :: "string \<rightharpoonup> byte list"
  transcriptions :: "(string \<times> string \<times> string) list"
  energy_log :: "js_number list"

definition audioDir :: string where
  "audioDir = ''./audio_recordings''"

definition MAX_CONCURRENT :: nat where
  "MAX_CONCURRENT = 5"

definition MIN_AUDIO_BYTES :: nat where
  "MIN_AUDIO_BYTES = 2048"

definition MIN_AUDIO_DURATION_MS :: real where
  "MIN_AUDIO_DURATION_MS = 500"

definition PROCESSING_TIMEOUT_MS :: nat where
  "PROCESSING_TIMEOUT_MS = 15000"

definition MIN_ENERGY :: real where
  "MIN_ENERGY = 100"

definition new_audio_processor :: audio_processor where
  "new_audio_processor =
     \<lparr>processingQueue = [], activeUsers = [], timeouts = [], files = Map.empty,
      transcriptions = [], energy_log = []\<rparr>"

text \<open>
  A capture task is what the closure of one admitted call of
  \<^verbatim>\<open>setupUserAudioCapture\<close> holds: the user, the processing key and the scratch file name.
\<close>

record capture_task =
  task_user :: user
  processingKey :: string
  filename :: string

definition processing_key :: "string \<Rightarrow> nat \<Rightarrow> string" where
  "processing_key uid now = uid @ ''-'' @ decimal now"

definition pcm_filename :: "string \<Rightarrow> nat \<Rightarrow> string" where
  "pcm_filename uid now = audioDir @ ''/'' @ uid @ ''-'' @ decimal now @ ''.pcm''"

text \<open>
  Lines 47 to 69 of \<^verbatim>\<open>setupUserAudioCapture\<close>: the two guards, the two additions and the
  registration of the timer. The two readings of \<^verbatim>\<open>Date.now()\<close> are \<open>now\<close> (processing key,
  line 59) and \<open>now'\<close> (file name, line 81). The result is \<open>None\<close> when the call returns at
  one of the two guards, and the admitted task otherwise; the task carries the file name
  that line 81 gives it. Lines 71 to 88, which open the streams and may throw, belong to
  \<open>setupUserAudioCapture_pipeline\<close> below.
\<close>

definition setupUserAudioCapture_admit ::
  "user \<Rightarrow> nat \<Rightarrow> nat \<Rightarrow> audio_processor \<Rightarrow> capture_task option \<times> audio_processor" where
  "setupUserAudioCapture_admit u now now' s =
     (if js_has (user_id u) (activeUsers s) then (None, s)
      else if js_size (processingQueue s) \<ge> MAX_CONCURRENT then (None, s)
      else
        (let key = processing_key (user_id u) now
         in (Some \<lparr>task_user = u, processingKey = key,
                    filename = pcm_filename (user_id u) now'\<rparr>,
             s\<lparr>activeUsers := js_add (user_id u) (activeUsers s),
               processingQueue := js_add key (processingQueue s),
               timeouts := timeouts s @ [key]\<rparr>)))"

text \<open>
  The callback given to \<^verbatim>\<open>setTimeout\<close> (lines 64 to 69). It runs only while its timer is
  pending; a timer that was cleared or has fired does nothing. The timer is due
  \<^verbatim>\<open>PROCESSING_TIMEOUT_MS\<close> after the admission; when it fires relative to the other events
  is left open.
\<close>

definition processing_timeout :: "string \<Rightarrow> audio_processor \<Rightarrow> audio_processor" where
  "processing_timeout key s =
     (if key \<in> set (timeouts s) then
        (let s1 = s\<lparr>timeouts := remove1 key (timeouts s)\<rparr>
         in if js_has key (processingQueue s1)
            then s1\<lparr>processingQueue := js_delete key (processingQueue s1)\<rparr>
            else s1)
      else s)"

text \<open>
  Speaker-start events that arrive together: each runs the synchronous part of
  \<^verbatim>\<open>setupUserAudioCapture\<close> before any admitted task goes on. The result lists, per
  event, whether it was admitted.
\<close>

fun admit_all ::
  "(user \<times> nat \<times> nat) list \<Rightarrow> audio_processor \<Rightarrow> bool list \<times> audio_processor" where
  "admit_all [] s = ([], s)"
| "admit_all ((u, now, now') # evs) s =
     (case setupUserAudioCapture_admit u now now' s of
        (r, s1) \<Rightarrow> (case admit_all evs s1 of (rs, s2) \<Rightarrow> ((r \<noteq> None) # rs, s2)))"

subsection \<open>Errors, the file system and the captured audio\<close>

text \<open>
  A thrown JavaScript error is a value. The names are the error codes and classes that
  the source tests for or that its calls raise. The scratch directory is a map from file
  names to contents; reading, measuring and unlinking a file fail exactly when the file
  does not exist.
\<close>

datatype js_error =
    ENOENT
  | ERR_STREAM_PREMATURE_CLOSE
  | CorruptedData
  | SyntaxError
  | TypeError
  | OtherError string

definition existsSync :: "string \<Rightarrow> (string \<rightharpoonup> byte list) \<Rightarrow> bool" where
  "existsSync f fs = (fs f \<noteq> None)"

definition statSync_size :: "string \<Rightarrow> (string \<rightharpoonup> byte list) \<Rightarrow> js_error + nat" where
  "statSync_size f fs = (case fs f of None \<Rightarrow> Inl ENOENT | Some b \<Rightarrow> Inr (length b))"

definition readFileSync :: "string \<Rightarrow> (string \<rightharpoonup> byte list) \<Rightarrow> js_error + byte list" where
  "readFileSync f fs = (case fs f of None \<Rightarrow> Inl ENOENT | Some b \<Rightarrow> Inr b)"

definition unlinkSync ::
  "string \<Rightarrow> (string \<rightharpoonup> byte list) \<Rightarrow> js_error + (string \<rightharpoonup> byte list)" where
  "unlinkSync f fs = (case fs f of None \<Rightarrow> Inl ENOENT | Some b \<Rightarrow> Inr (fs(f := None)))"

text \<open>
  What \<^verbatim>\<open>pipelineAsync(opusStream, pcmStream, createWriteStream(filename))\<close> did: it
  wrote the decoded segment, or it failed with an error and left either nothing or a
  partial file behind.
\<close>

datatype capture_outcome =
    Captured "byte list"
  | CaptureFailed js_error "byte list option"

fun capture_error :: "capture_outcome \<Rightarrow> js_error option" where
  "capture_error (Captured b) = None"
| "capture_error (CaptureFailed e left) = Some e"

fun capture_written :: "capture_outcome \<Rightarrow> byte list option" where
  "capture_written (Captured b) = Some b"
| "capture_written (CaptureFailed e left) = left"

definition write_file ::
  "string \<Rightarrow> byte list option \<Rightarrow> (string \<rightharpoonup> byte list) \<Rightarrow> (string \<rightharpoonup> byte list)" where
  "write_file f content fs = (case content of None \<Rightarrow> fs | Some b \<Rightarrow> fs(f \<mapsto> b))"

subsection \<open>Audio energy\<close>

text \<open>
  \<^verbatim>\<open>new Int16Array(buffer.buffer, buffer.byteOffset, buffer.length / 2)\<close>: the bytes taken
  two at a time, low byte first (the host's byte order), each pair read as a signed
  16-bit integer; an odd last byte is not part of the view.
\<close>

fun int16_samples :: "byte list \<Rightarrow> 16 word list" where
  "int16_samples (lo # hi # rest) = (word_cat hi lo :: 16 word) # int16_samples rest"
| "int16_samples [lo] = []"
| "int16_samples [] = []"

definition sum_squares :: "16 word list \<Rightarrow> int" where
  "sum_squares samples = foldl (\<lambda>sumSquares x. sumSquares + sint x * sint x) 0 samples"

definition audio_energy :: "byte list \<Rightarrow> js_number" where
  "audio_energy buffer =
     (let samples = int16_samples buffer
      in js_sqrt (js_divide (real_of_int (sum_squares samples)) (real (length samples))))"

definition calculateAudioEnergy ::
  "string \<Rightarrow> (string \<rightharpoonup> byte list) \<Rightarrow> js_error + js_number" where
  "calculateAudioEnergy f fs =
     (case readFileSync f fs of Inl e \<Rightarrow> Inl e | Inr buffer \<Rightarrow> Inr (audio_energy buffer))"

definition durationMs :: "nat \<Rightarrow> real" where
  "durationMs nbytes = (real nbytes / 192000) * 1000"

subsection \<open>Enhancement: the FFmpeg subprocess\<close>

text \<open>
  What the executor of the promise of \<^verbatim>\<open>convertAudio\<close> meets. \<^verbatim>\<open>spawn\<close> or the
  registration \<^verbatim>\<open>ffmpegProcess.stderr.on\<close> throws while the executor runs (a spawn
  failure that leaves the child without its pipes, for one); or the child process emits
  an \<^verbatim>\<open>'error'\<close> event (the process could not be spawned); or it emits a \<^verbatim>\<open>'close'\<close>
  event with an exit code, the process having written an output file or not. A process
  that a signal ended closes with the code \<^verbatim>\<open>null\<close>, which the test of line 207 treats as
  it treats a code other than 0.
\<close>

datatype ffmpeg_outcome =
    SpawnThrows js_error
  | SpawnError
  | Closed int "byte list option"

definition converted_name :: "string \<Rightarrow> string" where
  "converted_name f = f @ ''.converted.pcm''"

fun ffmpeg_written :: "ffmpeg_outcome \<Rightarrow> byte list option" where
  "ffmpeg_written (SpawnThrows e) = None"
| "ffmpeg_written SpawnError = None"
| "ffmpeg_written (Closed code out) = out"

text \<open>
  How the promise settles: an error thrown in the executor rejects it (\<open>Inl\<close>), the
  handler of \<^verbatim>\<open>'error'\<close> resolves it with \<^verbatim>\<open>null\<close> (\<open>Inr None\<close>), and the handler of
  \<^verbatim>\<open>'close'\<close> resolves it with \<^verbatim>\<open>null\<close> for a code other than 0 and with the name of the
  converted file for the code 0.
\<close>

fun ffmpeg_resolves :: "ffmpeg_outcome \<Rightarrow> string \<Rightarrow> js_error + string option" where
  "ffmpeg_resolves (SpawnThrows e) convertedFile = Inl e"
| "ffmpeg_resolves SpawnError convertedFile = Inr None"
| "ffmpeg_resolves (Closed code out) convertedFile =
     (if code \<noteq> 0 then Inr None else Inr (Some convertedFile))"

definition convertAudio ::
  "ffmpeg_outcome \<Rightarrow> string \<Rightarrow> (string \<rightharpoonup> byte list) \<Rightarrow>
   (js_error + string option) \<times> (string \<rightharpoonup> byte list)" where
  "convertAudio ff f fs =
     (let convertedFile = converted_name f
      in (ffmpeg_resolves ff convertedFile, write_file convertedFile (ffmpeg_written ff) fs))"

subsection \<open>Recognition: the Vosk backend\<close>

text \<open>
  The values the recognizer hands back. The typings declare \<^verbatim>\<open>result()\<close> and
  \<^verbatim>\<open>finalResult()\<close> as strings while the source also tests for objects, so both
  shapes are values here, with \<^verbatim>\<open>undefined\<close> and \<^verbatim>\<open>null\<close>; numbers, booleans and arrays
  are left out.
\<close>

datatype js_value =
    JUndefined
  | JNull
  | JString string
  | JObject "(string \<times> js_value) list"

fun truthy :: "js_value \<Rightarrow> bool" where
  "truthy JUndefined = False"
| "truthy JNull = False"
| "truthy (JString s) = (s \<noteq> [])"
| "truthy (JObject props) = True"

fun to_string :: "js_value \<Rightarrow> string" where
  "to_string JUndefined = ''undefined''"
| "to_string JNull = ''null''"
| "to_string (JString s) = s"
| "to_string (JObject props) = ''[object Object]''"

fun get_property :: "js_value \<Rightarrow> string \<Rightarrow> js_error + js_value" where
  "get_property JUndefined name = Inl TypeError"
| "get_property JNull name = Inl TypeError"
| "get_property (JString s) name = Inr JUndefined"
| "get_property (JObject props) name =
     (case map_of props name of None \<Rightarrow> Inr JUndefined | Some v \<Rightarrow> Inr v)"

fun typeof_object :: "js_value \<Rightarrow> bool" where
  "typeof_object JNull = True"
| "typeof_object (JObject props) = True"
| "typeof_object v = False"

text \<open>
  The recognizer is an object of the native library with a state of its own (type
  \<open>'r\<close>). Each of its methods may throw. \<^verbatim>\<open>JSON.parse\<close> is the host's parser: it
  returns a value or throws a \<^verbatim>\<open>SyntaxError\<close>.
\<close>

record 'r vosk_backend =
  new_Recognizer :: "js_error + 'r"
  acceptWaveform :: "'r \<Rightarrow> byte list \<Rightarrow> js_error + (bool \<times> 'r)"
  result :: "'r \<Rightarrow> js_error + (js_value \<times> 'r)"
  finalResult :: "'r \<Rightarrow> js_error + (js_value \<times> 'r)"
  free :: "'r \<Rightarrow> js_error option"
  JSON_parse :: "string \<Rightarrow> js_error + js_value"

definition is_space :: "char \<Rightarrow> bool" where
  "is_space c = (c \<in> set [CHR '' '', CHR 0x09, CHR 0x0A, CHR 0x0B, CHR 0x0C, CHR 0x0D])"

definition trim :: "string \<Rightarrow> string" where
  "trim s = rev (dropWhile is_space (rev (dropWhile is_space s)))"

definition chunkSize :: nat where
  "chunkSize = 8192"

text \<open>
  The \<^verbatim>\<open>while (offset < audioData.length)\<close> loop of \<^verbatim>\<open>recognizeAudio\<close>. The argument
  \<open>audioData\<close> is the part of the buffer from \<open>offset\<close> on; one round feeds the next
  \<open>chunkSize\<close> bytes.
\<close>

function recognize_chunks ::
  "'r vosk_backend \<Rightarrow> 'r \<Rightarrow> byte list \<Rightarrow> string \<Rightarrow> js_error + (string \<times> 'r)" where
  "recognize_chunks vosk recognizer audioData transcription =
     (if audioData = [] then Inr (transcription, recognizer)
      else
        (case acceptWaveform vosk recognizer (take chunkSize audioData) of
           Inl e \<Rightarrow> Inl e
         | Inr (accepted, r1) \<Rightarrow>
             if accepted then
               (case result vosk r1 of
                  Inl e \<Rightarrow> Inl e
                | Inr (resultStr, r2) \<Rightarrow>
                    if truthy resultStr \<and> resultStr \<noteq> JString ''[object Object]'' then
                      (case JSON_parse vosk (to_string resultStr) of
                         Inl e \<Rightarrow> Inl e
                       | Inr res \<Rightarrow>
                           (case get_property res ''text'' of
                              Inl e \<Rightarrow> Inl e
                            | Inr t \<Rightarrow>
                                recognize_chunks vosk r2 (drop chunkSize audioData)
                                  (if truthy t then transcription @ to_string t @ '' ''
                                   else transcription)))
                    else recognize_chunks vosk r2 (drop chunkSize audioData) transcription)
             else recognize_chunks vosk r1 (drop chunkSize audioData) transcription))"
  by pat_completeness auto
termination
  by (relation "measure (\<lambda>(vosk, recognizer, audioData, transcription). length audioData)")
     (auto simp: chunkSize_def)

declare recognize_chunks.simps [simp del]

text \<open>
  The \<^verbatim>\<open>finalResult\<close> test of lines 255 to 260: a value that is not \<^verbatim>\<open>null\<close>, has type
  \<^verbatim>\<open>object\<close> and has a string field \<^verbatim>\<open>text\<close> adds that text.
\<close>

fun own_string :: "js_value \<Rightarrow> string \<Rightarrow> string option" where
  "own_string (JObject props) name =
     (case map_of props name of Some (JString t) \<Rightarrow> Some t | _ \<Rightarrow> None)"
| "own_string v name = None"

definition final_text :: "js_value \<Rightarrow> string" where
  "final_text fin =
     (if fin \<noteq> JNull \<and> typeof_object fin then
        (case own_string fin ''text'' of Some t \<Rightarrow> t | None \<Rightarrow> [])
      else [])"

text \<open>The body of the \<^verbatim>\<open>try\<close> block of \<^verbatim>\<open>recognizeAudio\<close>.\<close>

definition recognizeAudio_try ::
  "'r vosk_backend \<Rightarrow> string \<Rightarrow> (string \<rightharpoonup> byte list) \<Rightarrow> js_error + string" where
  "recognizeAudio_try vosk convertedFile fs =
     (case new_Recognizer vosk of
        Inl e \<Rightarrow> Inl e
      | Inr recognizer \<Rightarrow>
          (case readFileSync convertedFile fs of
             Inl e \<Rightarrow> Inl e
           | Inr audioData \<Rightarrow>
               (case recognize_chunks vosk recognizer audioData [] of
                  Inl e \<Rightarrow> Inl e
                | Inr (transcription, r1) \<Rightarrow>
                    (case finalResult vosk r1 of
                       Inl e \<Rightarrow> Inl e
                     | Inr (fin, r2) \<Rightarrow>
                         (case free vosk r2 of
                            Some e \<Rightarrow> Inl e
                          | None \<Rightarrow> Inr (trim (transcription @ final_text fin)))))))"

text \<open>
  \<^verbatim>\<open>recognizeAudio\<close>: the \<^verbatim>\<open>catch\<close> block frees the recognizer, ignoring a failure of
  that, and returns the empty string. The result type keeps a place for an error that
  the method would let through.
\<close>

definition recognizeAudio ::
  "'r vosk_backend \<Rightarrow> string \<Rightarrow> (string \<rightharpoonup> byte list) \<Rightarrow> js_error + string" where
  "recognizeAudio vosk convertedFile fs =
     (case recognizeAudio_try vosk convertedFile fs of
        Inl e \<Rightarrow> Inr []
      | Inr text \<Rightarrow> Inr text)"

text \<open>
  The closure \<^verbatim>\<open>recognize\<close> of \<^verbatim>\<open>transcribeAudio\<close> (lines 281 to 290): it returns the
  text and the file system after its \<^verbatim>\<open>unlinkSync\<close> calls, whose own errors are
  swallowed.
\<close>

definition recognize ::
  "'r vosk_backend \<Rightarrow> string \<Rightarrow> (string \<rightharpoonup> byte list) \<Rightarrow>
   string \<times> (string \<rightharpoonup> byte list)" where
  "recognize vosk convertedFile fs =
     (case recognizeAudio vosk convertedFile fs of
        Inr text \<Rightarrow>
          (case unlinkSync convertedFile fs of
             Inl e \<Rightarrow> (text, fs)
           | Inr fs1 \<Rightarrow> (text, fs1))
      | Inl e \<Rightarrow>
          (if existsSync convertedFile fs then
             (case unlinkSync convertedFile fs of
                Inl e1 \<Rightarrow> ([], fs)
              | Inr fs1 \<Rightarrow> ([], fs1))
           else ([], fs)))"

text \<open>
  \<^verbatim>\<open>transcribeAudio\<close>. The \<^verbatim>\<open>await\<close> of line 275 throws what the promise of
  \<^verbatim>\<open>convertAudio\<close> was rejected with, and nothing around it catches, so the promise of
  \<^verbatim>\<open>transcribeAudio\<close> is rejected with the same error (\<open>Inl\<close>). The call of \<open>recognize\<close> is
  the one that the source chains on \<^verbatim>\<open>transcriptionLock\<close>; the order in which chained calls
  run is the subject of the lock model below. The second component tells whether
  \<open>recognize\<close> was called.
\<close>

definition transcribeAudio ::
  "ffmpeg_outcome \<Rightarrow> 'r vosk_backend \<Rightarrow> string \<Rightarrow> (string \<rightharpoonup> byte list) \<Rightarrow>
   (js_error + string) \<times> bool \<times> (string \<rightharpoonup> byte list)" where
  "transcribeAudio ff vosk f fs =
     (case convertAudio ff f fs of
        (Inl e, fs1) \<Rightarrow> (Inl e, False, fs1)
      | (Inr None, fs1) \<Rightarrow> (Inr [], False, fs1)
      | (Inr (Some convertedFile), fs1) \<Rightarrow>
          if \<not> existsSync convertedFile fs1 then (Inr [], False, fs1)
          else (case recognize vosk convertedFile fs1 of
                  (text, fs2) \<Rightarrow> (Inr text, True, fs2)))"

subsection \<open>The capture pipeline\<close>

text \<open>
  Everything outside the program that one run of the pipeline depends on: the error that
  opening the streams throws, if any (lines 71 to 88: \<^verbatim>\<open>receiver.subscribe\<close>,
  \<^verbatim>\<open>setMaxListeners\<close> and the constructor of the decoder, which throws when no Opus
  library is installed), what the capture wrote, what FFmpeg did and how the recognizer
  behaves.
\<close>

record 'r environment =
  open_streams :: "js_error option"
  capture :: capture_outcome
  ffmpeg :: ffmpeg_outcome
  vosk :: "'r vosk_backend"

text \<open>
  How the rest of the call went. Control left the \<^verbatim>\<open>try\<close> block by one of the three early
  returns of the quality checks, at its end with the transcribed text, or by a thrown
  error; or the \<^verbatim>\<open>try\<close> block was never entered, because lines 71 to 88 threw: then the
  promise of \<^verbatim>\<open>setupUserAudioCapture\<close> is rejected with that error.
\<close>

datatype pipeline_exit =
    AudioTooSmall
  | AudioTooShort
  | EnergyTooLow
  | Completed string
  | Thrown js_error
  | NotStarted js_error

text \<open>\<^verbatim>\<open>unlinkSync(filename)\<close> followed by leaving the block with \<open>exit\<close>.\<close>

definition unlink_then ::
  "pipeline_exit \<Rightarrow> string \<Rightarrow> audio_processor \<Rightarrow> pipeline_exit \<times> audio_processor" where
  "unlink_then exit f s =
     (case unlinkSync f (files s) of
        Inl e \<Rightarrow> (Thrown e, s)
      | Inr fs \<Rightarrow> (exit, s\<lparr>files := fs\<rparr>))"

definition deliver :: "user \<Rightarrow> string \<Rightarrow> audio_processor \<Rightarrow> audio_processor" where
  "deliver u text s =
     (if text \<noteq> [] \<and> length (trim text) > 0
      then s\<lparr>transcriptions := transcriptions s @ [(user_id u, username u, text)]\<rparr>
      else s)"

text \<open>The \<^verbatim>\<open>try\<close> block, lines 90 to 134.\<close>

definition setupUserAudioCapture_try ::
  "'r environment \<Rightarrow> capture_task \<Rightarrow> audio_processor \<Rightarrow> pipeline_exit \<times> audio_processor" where
  "setupUserAudioCapture_try env task s =
     (let f = filename task;
          s1 = s\<lparr>files := write_file f (capture_written (capture env)) (files s)\<rparr>
      in case capture_error (capture env) of
           Some e \<Rightarrow> (Thrown e, s1)
         | None \<Rightarrow>
             (case statSync_size f (files s1) of
                Inl e \<Rightarrow> (Thrown e, s1)
              | Inr nbytes \<Rightarrow>
                  if nbytes < MIN_AUDIO_BYTES then unlink_then AudioTooSmall f s1
                  else if durationMs nbytes < MIN_AUDIO_DURATION_MS
                    then unlink_then AudioTooShort f s1
                  else
                    (case calculateAudioEnergy f (files s1) of
                       Inl e \<Rightarrow> (Thrown e, s1)
                     | Inr energy \<Rightarrow>
                         (let s2 = s1\<lparr>energy_log := energy_log s1 @ [energy]\<rparr>
                          in if js_less energy MIN_ENERGY then unlink_then EnergyTooLow f s2
                             else
                               (case transcribeAudio (ffmpeg env) (vosk env) f (files s2) of
                                  (Inl e, called, fs2) \<Rightarrow> (Thrown e, s2\<lparr>files := fs2\<rparr>)
                                | (Inr text, called, fs2) \<Rightarrow>
                                    unlink_then (Completed text) f
                                      (deliver (task_user task) text (s2\<lparr>files := fs2\<rparr>)))))))"

text \<open>The \<^verbatim>\<open>catch\<close> block, lines 151 to 156: errors of the cleanup are swallowed.\<close>

definition catch_cleanup :: "string \<Rightarrow> audio_processor \<Rightarrow> audio_processor" where
  "catch_cleanup f s =
     (if existsSync f (files s) then
        (case unlinkSync f (files s) of
           Inl e \<Rightarrow> s
         | Inr fs \<Rightarrow> s\<lparr>files := fs\<rparr>)
      else s)"

text \<open>The \<^verbatim>\<open>finally\<close> block, lines 158 to 160.\<close>

definition finally_release :: "capture_task \<Rightarrow> audio_processor \<Rightarrow> audio_processor" where
  "finally_release task s =
     s\<lparr>timeouts := remove1 (processingKey task) (timeouts s),
       processingQueue := js_delete (processingKey task) (processingQueue s),
       activeUsers := js_delete (user_id (task_user task)) (activeUsers s)\<rparr>"

text \<open>
  Lines 71 to 161: what an admitted call of \<^verbatim>\<open>setupUserAudioCapture\<close> does after the
  admission, to its end. Lines 71 to 88 stand before the \<^verbatim>\<open>try\<close> statement: when they
  throw, neither the \<^verbatim>\<open>catch\<close> block nor the \<^verbatim>\<open>finally\<close> block runs, and the call ends
  with the state as the admission left it. They run in the same turn as the admission
  and change nothing of the state, so the states are the same when they are run with the
  rest of the call. The caller (line 254 of index.ts) does not look at the promise.
\<close>

definition setupUserAudioCapture_pipeline ::
  "'r environment \<Rightarrow> capture_task \<Rightarrow> audio_processor \<Rightarrow> pipeline_exit \<times> audio_processor" where
  "setupUserAudioCapture_pipeline env task s =
     (case open_streams env of
        Some e \<Rightarrow> (NotStarted e, s)
      | None \<Rightarrow>
          (case setupUserAudioCapture_try env task s of
             (exit, s1) \<Rightarrow>
               (exit,
                finally_release task
                  (case exit of
                     Thrown e \<Rightarrow> catch_cleanup (filename task) s1
                   | _ \<Rightarrow> s1))))"

text \<open>A whole call of \<^verbatim>\<open>setupUserAudioCapture\<close> that no other event interrupts.\<close>

definition setupUserAudioCapture ::
  "'r environment \<Rightarrow> user \<Rightarrow> nat \<Rightarrow> nat \<Rightarrow> audio_processor \<Rightarrow> audio_processor" where
  "setupUserAudioCapture env u now now' s =
     (case setupUserAudioCapture_admit u now now' s of
        (None, s1) \<Rightarrow> s1
      | (Some task, s1) \<Rightarrow> snd (setupUserAudioCapture_pipeline env task s1))"

text \<open>
  The events that change the scheduler's state: a call of \<^verbatim>\<open>setupUserAudioCapture\<close>
  runs its guards and its admission, a pending timeout fires, an admitted call runs the
  rest of its body to the end.
\<close>

datatype 'r ap_event =
    SpeakerStart user nat nat
  | TimeoutFires string
  | TaskEnds capture_task "'r environment"

fun ap_step :: "'r ap_event \<Rightarrow> audio_processor \<Rightarrow> audio_processor" where
  "ap_step (SpeakerStart u now now') s = snd (setupUserAudioCapture_admit u now now' s)"
| "ap_step (TimeoutFires key) s = processing_timeout key s"
| "ap_step (TaskEnds task env) s = snd (setupUserAudioCapture_pipeline env task s)"

definition ap_run :: "'r ap_event list \<Rightarrow> audio_processor \<Rightarrow> audio_processor" where
  "ap_run evs s = fold ap_step evs s"

text \<open>
  Every key of the in-flight set was made for a user who is in the active-users set.
\<close>

definition queue_owned :: "audio_processor \<Rightarrow> bool" where
  "queue_owned s =
     (\<forall>k \<in> set (processingQueue s). \<exists>u \<in> set (activeUsers s). \<exists>t. k = processing_key u t)"

subsection \<open>The quality gate in the words of the specification\<close>

text \<open>
  RMS energy as the specification states it: the square root of the mean of the squared
  16-bit sample amplitudes over all samples of the segment.
\<close>

definition rms_energy :: "byte list \<Rightarrow> real" where
  "rms_energy buffer =
     sqrt ((\<Sum>x\<leftarrow>int16_samples buffer. (real_of_int (sint x))\<^sup>2) /
           real (length (int16_samples buffer)))"

text \<open>
  The estimated duration as the specification states it: the byte length divided by
  192000 bytes per second, times 1000.
\<close>

definition estimated_duration :: "byte list \<Rightarrow> real" where
  "estimated_duration buffer = real (length buffer) / 192000 * 1000"

subsection \<open>Example inputs\<close>

text \<open>
  A recognizer whose constructor throws, and a task as the synchronous part of
  \<^verbatim>\<open>setupUserAudioCapture\<close> makes it for user \<^verbatim>\<open>1\<close> at time 0.
\<close>

definition broken_backend :: "unit vosk_backend" where
  "broken_backend =
     \<lparr>new_Recognizer = Inl (OtherError ''model''), acceptWaveform = (\<lambda>r c. Inl TypeError),
      result = (\<lambda>r. Inl TypeError), finalResult = (\<lambda>r. Inl TypeError),
      free = (\<lambda>r. None), JSON_parse = (\<lambda>t. Inl SyntaxError)\<rparr>"

definition example_task :: capture_task where
  "example_task =
     \<lparr>task_user = \<lparr>user_id = ''1'', username = ''alice''\<rparr>, processingKey = ''1-0'',
      filename = ''./audio_recordings/1-0.pcm''\<rparr>"

text \<open>
  A user, a segment of half a second at a constant loud level, a segment of two seconds
  of silence, and a recognizer that accepts every chunk without an intermediate result
  and whose final result is the text \<^verbatim>\<open>touchdown\<close>.
\<close>

definition example_user :: user where
  "example_user = \<lparr>user_id = ''1'', username = ''alice''\<rparr>"

definition loud_segment :: "byte list" where
  "loud_segment = replicate 96000 127"

definition silent_segment :: "byte list" where
  "silent_segment = replicate 384000 0"

definition talking_backend :: "unit vosk_backend" where
  "talking_backend =
     \<lparr>new_Recognizer = Inr (), acceptWaveform = (\<lambda>r c. Inr (False, r)),
      result = (\<lambda>r. Inr (JString [], r)),
      finalResult = (\<lambda>r. Inr (JObject [(''text'', JString ''touchdown'')], r)),
      free = (\<lambda>r. None), JSON_parse = (\<lambda>t. Inl SyntaxError)\<rparr>"

definition talking_env :: "unit environment" where
  "talking_env =
     \<lparr>open_streams = None, capture = Captured loud_segment, ffmpeg = Closed 0 (Some [0, 0]),
      vosk = talking_backend\<rparr>"

text \<open>
  Segments at the thresholds of the quality checks: 2047 and 2048 bytes of silence, a loud
  segment one sample shorter than half a second, and two segments of half a second in
  which every sample is 99 and 100 (low byte first).
\<close>

definition tiny_segment :: "byte list" where
  "tiny_segment = replicate 2047 0"

definition small_segment :: "byte list" where
  "small_segment = replicate 2048 0"

definition short_segment :: "byte list" where
  "short_segment = replicate 95998 127"

definition faint_segment :: "byte list" where
  "faint_segment = concat (replicate 48000 [99, 0])"

definition audible_segment :: "byte list" where
  "audible_segment = concat (replicate 48000 [100, 0])"

text \<open>The environment of \<open>talking_env\<close> with another captured segment.\<close>

definition segment_env :: "byte list \<Rightarrow> unit environment" where
  "segment_env b = talking_env\<lparr>capture := Captured b\<rparr>"

text \<open>
  Environments in which one thing goes wrong: no Opus library is installed, so the
  constructor of the decoder throws; FFmpeg exits with the code 1 after it has written a
  part of its output; \<^verbatim>\<open>spawn\<close> returns a child without pipes, so
  \<^verbatim>\<open>ffmpegProcess.stderr.on\<close> throws a \<^verbatim>\<open>TypeError\<close>.
\<close>

definition no_opus_env :: "unit environment" where
  "no_opus_env = talking_env\<lparr>open_streams := Some (OtherError ''Could not find an Opus module'')\<rparr>"

definition failing_ffmpeg_env :: "unit environment" where
  "failing_ffmpeg_env = talking_env\<lparr>ffmpeg := Closed 1 (Some [0, 0])\<rparr>"

definition spawn_throws_env :: "unit environment" where
  "spawn_throws_env = talking_env\<lparr>ffmpeg := SpawnThrows TypeError\<rparr>"

text \<open>
  A recognizer that gives for every chunk an intermediate result that parses to an
  object with the text \<^verbatim>\<open>touch\<close>, and then throws in \<^verbatim>\<open>finalResult\<close>.
\<close>

definition stalling_backend :: "unit vosk_backend" where
  "stalling_backend =
     \<lparr>new_Recognizer = Inr (), acceptWaveform = (\<lambda>r c. Inr (True, r)),
      result = (\<lambda>r. Inr (JString ''json'', r)),
      finalResult = (\<lambda>r. Inl (OtherError ''final'')),
      free = (\<lambda>r. None),
      JSON_parse = (\<lambda>t. Inr (JObject [(''text'', JString ''touch'')]))\<rparr>"

section \<open>The sports detector (src/sportsDetector.ts)\<close>

text \<open>
  Strings are lists of 8-bit characters; the functions below treat the ASCII letters as
  JavaScript does and leave every other character as it is.
\<close>

definition upper_letters :: string where
  "upper_letters = ''ABCDEFGHIJKLMNOPQRSTUVWXYZ''"

definition lower_letters :: string where
  "lower_letters = ''abcdefghijklmnopqrstuvwxyz''"

definition lower_char :: "char \<Rightarrow> char" where
  "lower_char c = (case map_of (zip upper_letters lower_letters) c of None \<Rightarrow> c | Some d \<Rightarrow> d)"

definition upper_char :: "char \<Rightarrow> char" where
  "upper_char c = (case map_of (zip lower_letters upper_letters) c of None \<Rightarrow> c | Some d \<Rightarrow> d)"

definition toLowerCase :: "string \<Rightarrow> string" where
  "toLowerCase s = map lower_char s"

text \<open>
  The regular expressions that \<^verbatim>\<open>detectSports\<close> builds: a word boundary, the characters of
  the keyword, a word boundary. A character of the keyword that is not a syntax character
  of the pattern language stands for itself, and a dot stands for any character but a
  line terminator. A keyword with another syntax character gives a pattern outside this
  fragment (or none at all, the constructor throwing a \<^verbatim>\<open>SyntaxError\<close>), which the model
  leaves open: its result for such a keyword is \<open>None\<close>.
\<close>

datatype regex_atom = WordBoundary | Literal char | AnyChar

definition other_syntax_chars :: string where
  "other_syntax_chars = [CHR ''^'', CHR ''$'', CHR 0x5C, CHR ''*'', CHR ''+'', CHR ''?'',
     CHR ''('', CHR '')'', CHR ''['', CHR '']'', CHR ''{'', CHR ''}'', CHR ''|'']"

definition atom_of_char :: "char \<Rightarrow> regex_atom" where
  "atom_of_char c = (if c = CHR ''.'' then AnyChar else Literal c)"

definition keyword_regex :: "string \<Rightarrow> regex_atom list option" where
  "keyword_regex keyword =
     (if list_ex (\<lambda>c. c \<in> set other_syntax_chars) keyword then None
      else Some ([WordBoundary] @ map atom_of_char keyword @ [WordBoundary]))"

definition is_word_char :: "char \<Rightarrow> bool" where
  "is_word_char c = (c \<in> set (lower_letters @ upper_letters @ ''0123456789_''))"

fun is_word_at :: "char option \<Rightarrow> bool" where
  "is_word_at None = False"
| "is_word_at (Some c) = is_word_char c"

definition line_terminator :: "char \<Rightarrow> bool" where
  "line_terminator c = (c = CHR 0x0A \<or> c = CHR 0x0D)"

fun first_char :: "string \<Rightarrow> char option" where
  "first_char [] = None"
| "first_char (c # cs) = Some c"

text \<open>
  Matching a sequence of atoms at one position of the input: \<open>prev\<close> is the character
  before the position, if any, and the string is the input from the position on. With
  the flag \<^verbatim>\<open>i\<close> two characters match when their upper-case forms are equal.
\<close>

fun match_here :: "regex_atom list \<Rightarrow> char option \<Rightarrow> string \<Rightarrow> bool" where
  "match_here [] prev rest = True"
| "match_here (WordBoundary # atoms) prev rest =
     (is_word_at prev \<noteq> is_word_at (first_char rest) \<and> match_here atoms prev rest)"
| "match_here (Literal c # atoms) prev [] = False"
| "match_here (Literal c # atoms) prev (d # rest) =
     (upper_char c = upper_char d \<and> match_here atoms (Some d) rest)"
| "match_here (AnyChar # atoms) prev [] = False"
| "match_here (AnyChar # atoms) prev (d # rest) =
     (\<not> line_terminator d \<and> match_here atoms (Some d) rest)"

text \<open>\<^verbatim>\<open>regex.test\<close>: the pattern matches at some position of the input.\<close>

fun match_from :: "regex_atom list \<Rightarrow> char option \<Rightarrow> string \<Rightarrow> bool" where
  "match_from atoms prev [] = match_here atoms prev []"
| "match_from atoms prev (d # rest) =
     (match_here atoms prev (d # rest) \<or> match_from atoms (Some d) rest)"

definition regex_test :: "regex_atom list \<Rightarrow> string \<Rightarrow> bool" where
  "regex_test atoms s = match_from atoms None s"

record sports_detector =
  sportsKeywords :: "string js_set"

record detection =
  detected :: bool
  "keywords" :: "string list"

definition default_keywords :: "string list" where
  "default_keywords = [
    ''football'', ''soccer'', ''basketball'', ''baseball'', ''hockey'', ''tennis'',
      ''golf'', ''cricket'', ''rugby'', ''volleyball'', ''boxing'', ''wrestling'', ''mma'',
      ''ufc'', ''nfl'', ''nba'', ''mlb'', ''nhl'', ''fifa'', ''game'', ''match'',
      ''tournament'', ''championship'', ''playoffs'', ''season'', ''score'', ''team'',
      ''player'', ''coach'', ''referee'', ''stadium'', ''touchdown'', ''goal'',
      ''home run'', ''slam dunk'', ''hat trick'', ''lakers'', ''yankees'', ''cowboys'',
      ''patriots'', ''warriors'', ''celtics'', ''red sox'', ''manchester united'',
      ''barcelona'', ''real madrid'', ''lebron'', ''brady'', ''messi'', ''ronaldo'',
      ''mahomes'', ''curry'', ''super bowl'', ''world cup'', ''olympics'',
      ''world series'', ''finals'', ''draft'', ''espn'', ''sports center'',
      ''quarterback'', ''qb'', ''running back'', ''rb'', ''wide receiver'', ''wr'',
      ''tight end'', ''te'', ''offensive line'', ''defensive line'', ''linebacker'',
      ''cornerback'', ''cb'', ''safety'', ''free safety'', ''strong safety'', ''kickoff'',
      ''punt'', ''field goal'', ''extra point'', ''two point conversion'', ''first down'',
      ''fourth down'', ''red zone'', ''end zone'', ''line of scrimmage'', ''snap'',
      ''blitz'', ''sack'', ''interception'', ''fumble'', ''tackle'', ''pass'', ''rush'',
      ''reception'', ''yard'', ''yards'', ''offensive coordinator'',
      ''defensive coordinator'', ''head coach'', ''play action'', ''screen pass'',
      ''hail mary'', ''onside kick'', ''touchback'', ''holding'', ''offsides'',
      ''pass interference'', ''roughing the passer'', ''helmet to helmet'', ''division'',
      ''conference'', ''afc'', ''nfc'', ''wild card'', ''pro bowl'', ''russell wilson'',
      ''russ wilson'', ''bo nix'', ''jarrett stidham'', ''javonte williams'',
      ''jaleel mclaughlin'', ''samaje perine'', ''courtland sutton'', ''jerry jeudy'',
      ''tim patrick'', ''marvin mims'', ''adam trautman'', ''greg dulcich'',
      ''garett bolles'', ''mike mcglinchey'', ''lloyd cushenberry'', ''quinn meinerz'',
      ''ben powers'', ''patrick surtain'', ''pat surtain'', ''patrick surtain ii'',
      ''justin simmons'', ''kareem jackson'', ''josey jewell'', ''alex singleton'',
      ''jonathon cooper'', ''baron browning'', ''nik bonitto'', ''dre mont jones'',
      ''zach allen'', ''riley moss'', ''caden sterns'', ''p j locke'', ''sean payton'',
      ''vance joseph'', ''john elway'', ''peyton manning'', ''von miller'',
      ''demaryius thomas'', ''terrell davis'', ''shannon sharpe'', ''steve atwater'',
      ''champ bailey'', ''rod smith'', ''clinton portis'', ''bradley chubb'',
      ''geno smith'', ''drew lock'', ''kenneth walker'', ''kenneth walker iii'',
      ''zach charbonnet'', ''dk metcalf'', ''tyler lockett'', ''jaxon smith njigba'',
      ''noah fant'', ''will dissly'', ''colby parkinson'', ''charles cross'',
      ''abraham lucas'', ''damien lewis'', ''evan brown'', ''phil haynes'',
      ''devon witherspoon'', ''tariq woolen'', ''riq woolen'', ''coby bryant'',
      ''jamal adams'', ''julian love'', ''quandre diggs'', ''bobby wagner'',
      ''jordyn brooks'', ''devin bush'', ''boye mafe'', ''dre mont jones'',
      ''jarran reed'', ''leonard williams'', ''derick hall'', ''michael jackson'',
      ''mike macdonald'', ''ryan grubb'', ''russell wilson'', ''marshawn lynch'',
      ''beast mode'', ''richard sherman'', ''kam chancellor'', ''earl thomas'',
      ''doug baldwin'', ''steve largent'', ''walter jones'', ''cortez kennedy'',
      ''shaun alexander'', ''matt hasselbeck'', ''pete carroll'', ''legion of boom'',
      ''sea hawks'', ''12th man'', ''broncos'', ''seahawks'', ''raiders'', ''chargers'',
      ''chiefs'', ''ravens'', ''steelers'', ''browns'', ''bengals'', ''texans'', ''colts'',
      ''jaguars'', ''titans'', ''bills'', ''dolphins'', ''jets'', ''eagles'', ''giants'',
      ''commanders'', ''washington'', ''packers'', ''bears'', ''lions'', ''vikings'',
      ''falcons'', ''panthers'', ''saints'', ''buccaneers'', ''bucs'', ''cardinals'',
      ''49ers'', ''niners'', ''rams'', ''arizona'', ''san francisco'']"

text \<open>The constructor: \<^verbatim>\<open>new Set([...])\<close> adds the terms in order, each once.\<close>

definition new_SportsDetector :: sports_detector where
  "new_SportsDetector = \<lparr>sportsKeywords = foldl (\<lambda>s k. js_add k s) [] default_keywords\<rparr>"

text \<open>The loop of \<^verbatim>\<open>detectSports\<close> over the keywords, in the order of the set.\<close>

fun detect_keywords :: "string list \<Rightarrow> string \<Rightarrow> string list \<Rightarrow> string list option" where
  "detect_keywords [] lowerText detectedKeywords = Some detectedKeywords"
| "detect_keywords (keyword # rest) lowerText detectedKeywords =
     (case keyword_regex keyword of
        None \<Rightarrow> None
      | Some regex \<Rightarrow>
          detect_keywords rest lowerText
            (if regex_test regex lowerText then detectedKeywords @ [keyword]
             else detectedKeywords))"

definition detectSports :: "sports_detector \<Rightarrow> string \<Rightarrow> detection option" where
  "detectSports d text =
     (case detect_keywords (sportsKeywords d) (toLowerCase text) [] of
        None \<Rightarrow> None
      | Some detectedKeywords \<Rightarrow>
          Some \<lparr>detected = length detectedKeywords > 0, keywords = detectedKeywords\<rparr>)"

definition addKeyword :: "string \<Rightarrow> sports_detector \<Rightarrow> sports_detector" where
  "addKeyword keyword d = d\<lparr>sportsKeywords := js_add (toLowerCase keyword) (sportsKeywords d)\<rparr>"

definition removeKeyword :: "string \<Rightarrow> sports_detector \<Rightarrow> sports_detector" where
  "removeKeyword keyword d =
     d\<lparr>sportsKeywords := js_delete (toLowerCase keyword) (sportsKeywords d)\<rparr>"

definition getKeywords :: "sports_detector \<Rightarrow> string list" where
  "getKeywords d = sportsKeywords d"

subsection \<open>Whole-word matching in the words of the specification\<close>

text \<open>
  A term occurs in a text as a whole word, case-insensitively, when some stretch of the
  text equals the term up to the case of letters and has a word boundary at both of its
  ends: on each side, exactly one of the two neighbouring characters is a word character
  (a letter, a digit or an underscore), the outside of the text counting as none.
\<close>

definition char_before :: "string \<Rightarrow> nat \<Rightarrow> char option" where
  "char_before s i = (if 0 < i \<and> i \<le> length s then Some (s ! (i - 1)) else None)"

definition char_at :: "string \<Rightarrow> nat \<Rightarrow> char option" where
  "char_at s i = (if i < length s then Some (s ! i) else None)"

definition word_boundary :: "string \<Rightarrow> nat \<Rightarrow> bool" where
  "word_boundary s i = (is_word_at (char_before s i) \<noteq> is_word_at (char_at s i))"

definition occurs_at :: "string \<Rightarrow> string \<Rightarrow> nat \<Rightarrow> bool" where
  "occurs_at term s i =
     (i + length term \<le> length s
      \<and> toLowerCase (take (length term) (drop i s)) = toLowerCase term
      \<and> word_boundary s i \<and> word_boundary s (i + length term))"

definition occurs_as_whole_word :: "string \<Rightarrow> string \<Rightarrow> bool" where
  "occurs_as_whole_word term s = list_ex (occurs_at term s) [0 ..< Suc (length s)]"

section \<open>The bot (src/index.ts)\<close>

text \<open>
  A guild member as the bot sees it: the guild, the user, and the user's \<^verbatim>\<open>bot\<close> flag.
  The member's id is the id of its user.
\<close>

record member =
  guild_id :: string
  member_user :: user
  user_bot :: bool

text \<open>
  The fields of \<^verbatim>\<open>NoSportsZoneBot\<close>, with a voice connection named by a number, and the
  parts of the world its handlers register things in: the \<^verbatim>\<open>'start'\<close> listeners on the
  receivers of the connections (each listener with the member its closure holds), the
  pending cooldown timers, and the admitted capture tasks whose pipeline has not ended
  (each with the member its callback holds).
\<close>

record bot =
  audioProcessor :: audio_processor
  sportsDetector :: sports_detector
  activeConnections :: "string \<rightharpoonup> nat"
  userWarnings :: "string \<rightharpoonup> nat"
  monitoredUsers :: "string js_set"
  userCooldowns :: "string \<rightharpoonup> nat"
  listeners :: "(nat \<times> member) list"
  cooldownTimers :: "member list"
  captures :: "(capture_task \<times> member) list"

definition COOLDOWN_MS :: nat where
  "COOLDOWN_MS = 10000"

definition new_bot :: bot where
  "new_bot =
     \<lparr>audioProcessor = new_audio_processor, sportsDetector = new_SportsDetector,
      activeConnections = Map.empty, userWarnings = Map.empty, monitoredUsers = [],
      userCooldowns = Map.empty, listeners = [], cooldownTimers = [], captures = []\<rparr>"

definition user_key :: "member \<Rightarrow> string" where
  "user_key m = guild_id m @ ''-'' @ user_id (member_user m)"

text \<open>\<^verbatim>\<open>monitorUser\<close>, lines 239 to 261.\<close>

definition monitorUser :: "nat \<Rightarrow> member \<Rightarrow> bot \<Rightarrow> bot" where
  "monitorUser connection m b =
     (let userKey = user_key m
      in if js_has userKey (monitoredUsers b) then b
         else b\<lparr>monitoredUsers := js_add userKey (monitoredUsers b),
                listeners := listeners b @ [(connection, m)]\<rparr>)"

text \<open>
  The listener that \<^verbatim>\<open>monitorUser\<close> registers (lines 251 to 260), called with the id of
  the user who started speaking: for its own member it calls
  \<^verbatim>\<open>setupUserAudioCapture\<close>, whose synchronous part runs at once.
\<close>

definition speaking_listener :: "member \<Rightarrow> string \<Rightarrow> nat \<Rightarrow> nat \<Rightarrow> bot \<Rightarrow> bot" where
  "speaking_listener m userId now now' b =
     (if userId = user_id (member_user m) then
        (case setupUserAudioCapture_admit (member_user m) now now' (audioProcessor b) of
           (None, s) \<Rightarrow> b\<lparr>audioProcessor := s\<rparr>
         | (Some task, s) \<Rightarrow> b\<lparr>audioProcessor := s, captures := captures b @ [(task, m)]\<rparr>)
      else b)"

text \<open>
  A \<^verbatim>\<open>'start'\<close> event of the receiver of one connection: every listener registered on
  that receiver runs, in the order of registration.
\<close>

definition speaking_start :: "nat \<Rightarrow> string \<Rightarrow> nat \<Rightarrow> nat \<Rightarrow> bot \<Rightarrow> bot" where
  "speaking_start connection userId now now' b =
     fold (\<lambda>l b1. if fst l = connection then speaking_listener (snd l) userId now now' b1 else b1)
       (listeners b) b"

text \<open>
  \<^verbatim>\<open>kickUser\<close>, lines 275 to 296. \<open>in_voice\<close> tells whether the member is in a voice
  channel, \<open>disconnected\<close> whether \<^verbatim>\<open>member.voice.disconnect\<close> succeeded (it throws
  otherwise, and the \<^verbatim>\<open>catch\<close> block only logs).
\<close>

definition kickUser :: "member \<Rightarrow> string list \<Rightarrow> nat \<Rightarrow> bool \<Rightarrow> bool \<Rightarrow> bot \<Rightarrow> bot" where
  "kickUser m kws now in_voice disconnected b =
     (if \<not> in_voice then b
      else if \<not> disconnected then b
      else
        (let cooldownEnd = now + COOLDOWN_MS
         in b\<lparr>userCooldowns := (userCooldowns b)(user_id (member_user m) \<mapsto> cooldownEnd),
              userWarnings := (userWarnings b)(user_id (member_user m) := None)\<rparr>))"

text \<open>
  \<^verbatim>\<open>handleTranscription\<close>, lines 263 to 273. The detector of the bot only ever holds the
  default terms, for which \<open>detectSports\<close> has a result.
\<close>

definition handleTranscription ::
  "member \<Rightarrow> string \<Rightarrow> nat \<Rightarrow> bool \<Rightarrow> bool \<Rightarrow> bot \<Rightarrow> bot" where
  "handleTranscription m text now in_voice disconnected b =
     (case detectSports (sportsDetector b) text of
        None \<Rightarrow> b
      | Some r \<Rightarrow>
          if detected r then kickUser m (keywords r) now in_voice disconnected b else b)"

text \<open>
  What \<^verbatim>\<open>joinVoiceChannel\<close> and \<^verbatim>\<open>entersState\<close> gave: nothing (one of them threw), or a
  ready connection and the members of the channel.
\<close>

type_synonym join_result = "(nat \<times> member list) option"

text \<open>
  \<^verbatim>\<open>handleBotJoinedChannel\<close>, lines 201 to 237; the \<^verbatim>\<open>!join\<close> command does the same with
  the channel of the author (lines 78 to 111).
\<close>

definition handleBotJoinedChannel :: "string \<Rightarrow> join_result \<Rightarrow> bot \<Rightarrow> bot" where
  "handleBotJoinedChannel guild joined b =
     (case joined of
        None \<Rightarrow> b
      | Some (connection, members) \<Rightarrow>
          fold (monitorUser connection) (filter (\<lambda>m. \<not> user_bot m) members)
            (b\<lparr>activeConnections := (activeConnections b)(guild \<mapsto> connection)\<rparr>))"

text \<open>
  The \<^verbatim>\<open>messageCreate\<close> handler, lines 66 to 125: the author's bot flag, the content, the
  guild, whether the author is in a voice channel, and the outcome of joining it.
\<close>

definition messageCreate :: "bool \<Rightarrow> string \<Rightarrow> string \<Rightarrow> bool \<Rightarrow> join_result \<Rightarrow> bot \<Rightarrow> bot" where
  "messageCreate author_bot content guild in_voice joined b =
     (if author_bot then b
      else
        (let b1 = (if content = ''!join''
                   then (if \<not> in_voice then b else handleBotJoinedChannel guild joined b)
                   else b)
         in if content = ''!leave''
            then (case activeConnections b1 guild of
                    Some connection \<Rightarrow> b1\<lparr>activeConnections := (activeConnections b1)(guild := None)\<rparr>
                  | None \<Rightarrow> b1)
            else b1))"

text \<open>
  The handler of \<^verbatim>\<open>VoiceConnectionStatus.Disconnected\<close> when the connection does not come
  back (lines 97 to 107 and 223 to 233).
\<close>

definition connection_lost :: "string \<Rightarrow> bot \<Rightarrow> bot" where
  "connection_lost guild b = b\<lparr>activeConnections := (activeConnections b)(guild := None)\<rparr>"

text \<open>
  A voice state update: the channels of the old and the new state and the member. The
  event is taken to carry its member.
\<close>

record voice_state_change =
  old_channel :: "string option"
  new_channel :: "string option"
  vs_member :: member

definition on_cooldown :: "bot \<Rightarrow> string \<Rightarrow> nat \<Rightarrow> bool" where
  "on_cooldown b userId now =
     (userId \<noteq> [] \<and>
      (case userCooldowns b userId of None \<Rightarrow> False | Some cooldownEnd \<Rightarrow> now < cooldownEnd))"

text \<open>
  \<^verbatim>\<open>handleVoiceStateUpdate\<close>, lines 136 to 199. \<open>botId\<close> is \<^verbatim>\<open>this.client.user?.id\<close>. A
  join of a user on cooldown registers the timer and returns from the whole handler.
\<close>

definition handleVoiceStateUpdate ::
  "string option \<Rightarrow> voice_state_change \<Rightarrow> nat \<Rightarrow> join_result \<Rightarrow> bot \<Rightarrow> bot" where
  "handleVoiceStateUpdate botId v now joined b =
     (let m = vs_member v; userId = user_id (member_user m); guild = guild_id m;
          joins = (old_channel v = None \<and> new_channel v \<noteq> None);
          leaves = (old_channel v \<noteq> None \<and> new_channel v = None)
      in if joins \<and> on_cooldown b userId now
         then b\<lparr>cooldownTimers := cooldownTimers b @ [m]\<rparr>
         else
           (let b1 = (if joins then
                        (let b0 = (if userId \<noteq> [] \<and> userCooldowns b userId \<noteq> None
                                   then b\<lparr>userCooldowns := (userCooldowns b)(userId := None)\<rparr>
                                   else b)
                         in case activeConnections b0 guild of
                              Some connection \<Rightarrow>
                                if Some userId \<noteq> botId then monitorUser connection m b0 else b0
                            | None \<Rightarrow> b0)
                      else b);
                b2 = (if leaves \<and> userId \<noteq> []
                      then b1\<lparr>userWarnings := (userWarnings b1)(userId := None)\<rparr>
                      else b1);
                b3 = (if Some userId = botId \<and> joins \<and> activeConnections b2 guild = None
                      then handleBotJoinedChannel guild joined b2
                      else b2)
            in if Some userId = botId \<and> leaves
               then b3\<lparr>activeConnections := (activeConnections b3)(guild := None)\<rparr>
               else b3))"

text \<open>
  The timer callback of lines 152 to 159; \<open>in_voice\<close> tells whether the member is in a
  voice channel when it runs.
\<close>

definition cooldown_timer :: "member \<Rightarrow> bool \<Rightarrow> bot \<Rightarrow> bot" where
  "cooldown_timer m in_voice b =
     (if m \<in> set (cooldownTimers b) then
        (let b1 = b\<lparr>cooldownTimers := remove1 m (cooldownTimers b),
                     userCooldowns := (userCooldowns b)(user_id (member_user m) := None)\<rparr>
         in case activeConnections b1 (guild_id m) of
              Some connection \<Rightarrow> if in_voice then monitorUser connection m b1 else b1
            | None \<Rightarrow> b1)
      else b)"

text \<open>
  The end of the pipeline of an admitted task: the rest of \<^verbatim>\<open>setupUserAudioCapture\<close>
  runs, and every call it makes to \<^verbatim>\<open>onTranscription\<close> runs \<^verbatim>\<open>handleTranscription\<close> for
  the member of the task.
\<close>

definition capture_ends ::
  "capture_task \<Rightarrow> 'r environment \<Rightarrow> nat \<Rightarrow> bool \<Rightarrow> bool \<Rightarrow> bot \<Rightarrow> bot" where
  "capture_ends task env now in_voice disconnected b =
     (case map_of (captures b) task of
        None \<Rightarrow> b
      | Some m \<Rightarrow>
          (let s = audioProcessor b;
               s1 = snd (setupUserAudioCapture_pipeline env task s);
               delivered = drop (length (transcriptions s)) (transcriptions s1);
               b1 = b\<lparr>audioProcessor := s1, captures := remove1 (task, m) (captures b)\<rparr>
           in fold (\<lambda>d b2. handleTranscription m (snd (snd d)) now in_voice disconnected b2)
                delivered b1))"

datatype 'r bot_event =
    MessageCreate bool string string bool join_result
  | VoiceStateUpdate "string option" voice_state_change nat join_result
  | CooldownTimerFires member bool
  | ConnectionLost string
  | SpeakingStarts nat string nat nat
  | ProcessingTimeout string
  | CaptureEnds capture_task "'r environment" nat bool bool

fun bot_step :: "'r bot_event \<Rightarrow> bot \<Rightarrow> bot" where
  "bot_step (MessageCreate author_bot content guild in_voice joined) b =
     messageCreate author_bot content guild in_voice joined b"
| "bot_step (VoiceStateUpdate botId v now joined) b = handleVoiceStateUpdate botId v now joined b"
| "bot_step (CooldownTimerFires m in_voice) b = cooldown_timer m in_voice b"
| "bot_step (ConnectionLost guild) b = connection_lost guild b"
| "bot_step (SpeakingStarts connection userId now now') b =
     speaking_start connection userId now now' b"
| "bot_step (ProcessingTimeout key) b =
     b\<lparr>audioProcessor := processing_timeout key (audioProcessor b)\<rparr>"
| "bot_step (CaptureEnds task env now in_voice disconnected) b =
     capture_ends task env now in_voice disconnected b"

definition bot_run :: "'r bot_event list \<Rightarrow> bot \<Rightarrow> bot" where
  "bot_run evs b = fold bot_step evs b"

text \<open>
  The number of listeners that hold a given member of a given guild, and example
  members.
\<close>

definition listeners_for :: "string \<Rightarrow> string \<Rightarrow> bot \<Rightarrow> nat" where
  "listeners_for guild userId b =
     length (filter (\<lambda>l. guild_id (snd l) = guild \<and> user_id (member_user (snd l)) = userId)
               (listeners b))"

definition alice :: member where
  "alice = \<lparr>guild_id = ''7'', member_user = example_user, user_bot = False\<rparr>"

text \<open>
  The listeners hold pairwise different user keys, every key of a listener is in the
  monitored set, and the monitored set holds each key once.
\<close>

definition monitor_inv :: "bot \<Rightarrow> bool" where
  "monitor_inv b =
     (distinct (map (\<lambda>l. user_key (snd l)) (listeners b))
      \<and> set (map (\<lambda>l. user_key (snd l)) (listeners b)) \<subseteq> set (monitoredUsers b)
      \<and> distinct (monitoredUsers b))"

text \<open>
  A run of the bot: it joins a channel in which alice is and monitors her; she speaks and
  the segment is transcribed as \<^verbatim>\<open>touchdown\<close> at time 1000, so she is disconnected with a
  cooldown until 11000; the disconnect arrives as a voice state update; at 2000 she joins
  again.
\<close>

definition cooldown_scenario :: "unit bot_event list" where
  "cooldown_scenario =
     [MessageCreate False ''!join'' ''7'' True (Some (4, [alice])),
      SpeakingStarts 4 ''1'' 0 0,
      CaptureEnds example_task talking_env 1000 True True,
      VoiceStateUpdate (Some ''99'')
        \<lparr>old_channel = Some ''general'', new_channel = None, vs_member = alice\<rparr> 1001 None,
      VoiceStateUpdate (Some ''99'')
        \<lparr>old_channel = None, new_channel = Some ''general'', vs_member = alice\<rparr> 2000 None]"

section \<open>The transcription lock (src/audioProcessor.ts, lines 164 and 292)\<close>

text \<open>
  The field \<^verbatim>\<open>transcriptionLock\<close> holds a promise. Promises are named by numbers: 0 is
  the initial \<^verbatim>\<open>Promise.resolve()\<close>, and the \<open>k\<close>-th evaluation of
  \<^verbatim>\<open>this.transcriptionLock = this.transcriptionLock.then(() => recognize())\<close> creates
  promise \<open>k\<close>. For each created promise, \<open>chained\<close> records the promise it was chained on
  and the task whose \<open>recognize\<close> closure is its callback. \<open>settled\<close> lists the fulfilled
  promises, \<open>entered\<close> the promises whose callback has begun, in the order of beginning,
  and \<open>running\<close> the callbacks that have begun and not returned.
\<close>

record lock_state =
  transcriptionLock :: nat
  chained :: "(nat \<times> nat) list"
  settled :: "nat list"
  entered :: "nat list"
  running :: "nat list"

definition new_lock :: lock_state where
  "new_lock = \<lparr>transcriptionLock = 0, chained = [], settled = [0], entered = [], running = []\<rparr>"

text \<open>
  \<open>Chain t\<close>: task \<open>t\<close> reaches line 292. \<open>Enter p\<close>: the callback of promise \<open>p\<close> begins;
  a callback given to \<^verbatim>\<open>then\<close> runs once, and only when the promise it was chained on is
  fulfilled. \<open>Exit p\<close>: the callback returns; \<open>recognize\<close> returns a string and never
  throws, so promise \<open>p\<close> is fulfilled. A step that is not enabled gives \<open>None\<close>. The model
  does not use that \<open>recognize\<close> is synchronous: other events may come between an
  \<open>Enter\<close> and its \<open>Exit\<close>.
\<close>

datatype lock_event = Chain nat | Enter nat | Exit nat

fun lock_step :: "lock_event \<Rightarrow> lock_state \<Rightarrow> lock_state option" where
  "lock_step (Chain t) s =
     Some (s\<lparr>chained := chained s @ [(transcriptionLock s, t)],
             transcriptionLock := Suc (length (chained s))\<rparr>)"
| "lock_step (Enter p) s =
     (if 1 \<le> p \<and> p \<le> length (chained s)
         \<and> fst (chained s ! (p - 1)) \<in> set (settled s) \<and> p \<notin> set (entered s)
      then Some (s\<lparr>entered := entered s @ [p], running := running s @ [p]\<rparr>)
      else None)"
| "lock_step (Exit p) s =
     (if p \<in> set (running s)
      then Some (s\<lparr>running := remove1 p (running s), settled := settled s @ [p]\<rparr>)
      else None)"

fun lock_run :: "lock_event list \<Rightarrow> lock_state \<Rightarrow> lock_state option" where
  "lock_run [] s = Some s"
| "lock_run (ev # evs) s = (case lock_step ev s of None \<Rightarrow> None | Some s1 \<Rightarrow> lock_run evs s1)"

text \<open>The task whose callback promise \<open>p\<close> runs.\<close>

definition task_of :: "lock_state \<Rightarrow> nat \<Rightarrow> nat" where
  "task_of s p = snd (chained s ! (p - 1))"

text \<open>
  The shape of every reachable state: each promise is chained on the one created just
  before it, the field holds the last one, the fulfilled promises are \<open>0, \<dots>, m\<close>, and
  the callbacks that have begun are those of \<open>1, \<dots>, m\<close> with none running, or those of
  \<open>1, \<dots>, m + 1\<close> with that of \<open>m + 1\<close> running.
\<close>

definition lock_inv :: "lock_state \<Rightarrow> bool" where
  "lock_inv s =
     ((\<forall>k < length (chained s). fst (chained s ! k) = k)
      \<and> transcriptionLock s = length (chained s)
      \<and> (\<exists>m \<le> length (chained s). settled s = [0 ..< Suc m]
            \<and> ((entered s = [1 ..< Suc m] \<and> running s = [])
               \<or> (m < length (chained s) \<and> entered s = [1 ..< Suc (Suc m)]
                  \<and> running s = [Suc m]))))"

text \<open>A term without a syntax character of the pattern language.\<close>

definition plain_term :: "string \<Rightarrow> bool" where
  "plain_term k = (\<forall>c \<in> set k. c \<noteq> CHR ''.'' \<and> c \<notin> set other_syntax_chars)"

section \<open>Properties of the scheduler\<close>

lemma digit_char_not_minus: "d < 10 \<Longrightarrow> digit_char d \<noteq> CHR ''-''"
proof -
  assume "d < 10"
  then have "d \<in> {0, 1, 2, 3, 4, 5, 6, 7, 8, 9}" by auto
  then show ?thesis by (auto simp: digit_char_def)
qed

lemma minus_notin_decimal: "CHR ''-'' \<notin> set (decimal n)"
proof (induction n rule: decimal.induct)
  case (1 n)
  show ?case
  proof (cases "n < 10")
    case True
    then show ?thesis
      using digit_char_not_minus [of n] by (subst decimal.simps) auto
  next
    case False
    have "n mod 10 < 10" by simp
    then have "digit_char (n mod 10) \<noteq> CHR ''-''" by (rule digit_char_not_minus)
    with False "1.IH" show ?thesis
      by (subst decimal.simps) auto
  qed
qed

lemma split_at_last_separator:
  assumes "xs @ c # ds = ys @ c # es" and "c \<notin> set ds" and "c \<notin> set es"
  shows "xs = ys"
proof -
  have "rev ds @ c # rev xs = rev es @ c # rev ys"
    using assms(1) by (metis rev_append rev.simps(2) append_assoc append_Cons append_Nil)
  moreover have "dropWhile (\<lambda>x. x \<noteq> c) (rev ds @ c # rev xs) = c # rev xs"
    using assms(2) by (subst dropWhile_append2) auto
  moreover have "dropWhile (\<lambda>x. x \<noteq> c) (rev es @ c # rev ys) = c # rev ys"
    using assms(3) by (subst dropWhile_append2) auto
  ultimately have "rev xs = rev ys" by simp
  then show ?thesis by simp
qed

lemma processing_key_inj: "processing_key u t = processing_key u' t' \<Longrightarrow> u = u'"
  unfolding processing_key_def
  using split_at_last_separator [of u "CHR ''-''" "decimal t" u' "decimal t'"]
  by (simp add: minus_notin_decimal)

lemma try_processingQueue:
  "processingQueue (snd (setupUserAudioCapture_try env task s)) = processingQueue s"
  by (simp add: setupUserAudioCapture_try_def unlink_then_def deliver_def Let_def
      split: option.split sum.split prod.split)

lemma try_activeUsers:
  "activeUsers (snd (setupUserAudioCapture_try env task s)) = activeUsers s"
  by (simp add: setupUserAudioCapture_try_def unlink_then_def deliver_def Let_def
      split: option.split sum.split prod.split)

lemma try_timeouts:
  "timeouts (snd (setupUserAudioCapture_try env task s)) = timeouts s"
  by (simp add: setupUserAudioCapture_try_def unlink_then_def deliver_def Let_def
      split: option.split sum.split prod.split)

lemma catch_cleanup_fields:
  "processingQueue (catch_cleanup f s) = processingQueue s"
  "activeUsers (catch_cleanup f s) = activeUsers s"
  "timeouts (catch_cleanup f s) = timeouts s"
  "transcriptions (catch_cleanup f s) = transcriptions s"
  by (simp_all add: catch_cleanup_def split: sum.split)

lemma pipeline_not_started:
  "open_streams env = Some e \<Longrightarrow> setupUserAudioCapture_pipeline env task s = (NotStarted e, s)"
  by (simp add: setupUserAudioCapture_pipeline_def)

lemma pipeline_started:
  "open_streams env = None \<Longrightarrow>
   setupUserAudioCapture_pipeline env task s =
     (fst (setupUserAudioCapture_try env task s),
      finally_release task
        (case fst (setupUserAudioCapture_try env task s) of
           Thrown e \<Rightarrow> catch_cleanup (filename task) (snd (setupUserAudioCapture_try env task s))
         | _ \<Rightarrow> snd (setupUserAudioCapture_try env task s)))"
  by (cases "setupUserAudioCapture_try env task s")
     (simp add: setupUserAudioCapture_pipeline_def split: pipeline_exit.split)

lemma pipeline_processingQueue:
  "processingQueue (snd (setupUserAudioCapture_pipeline env task s)) =
     (if open_streams env = None then js_delete (processingKey task) (processingQueue s)
      else processingQueue s)"
proof (cases "open_streams env")
  case None
  then show ?thesis
    using try_processingQueue [of env task s]
    by (simp add: pipeline_started finally_release_def catch_cleanup_fields
        split: pipeline_exit.split)
next
  case (Some e)
  then show ?thesis by (simp add: pipeline_not_started)
qed

lemma pipeline_activeUsers:
  "activeUsers (snd (setupUserAudioCapture_pipeline env task s)) =
     (if open_streams env = None then js_delete (user_id (task_user task)) (activeUsers s)
      else activeUsers s)"
proof (cases "open_streams env")
  case None
  then show ?thesis
    using try_activeUsers [of env task s]
    by (simp add: pipeline_started finally_release_def catch_cleanup_fields
        split: pipeline_exit.split)
next
  case (Some e)
  then show ?thesis by (simp add: pipeline_not_started)
qed

lemma js_size_delete: "js_size (js_delete x q) \<le> js_size q"
  by (simp add: js_size_def js_delete_def)

lemma ap_step_size:
  "js_size (processingQueue s) \<le> MAX_CONCURRENT \<Longrightarrow>
   js_size (processingQueue (ap_step ev s)) \<le> MAX_CONCURRENT"
proof (cases ev)
  case (SpeakerStart u now now')
  assume "js_size (processingQueue s) \<le> MAX_CONCURRENT"
  then show ?thesis using SpeakerStart
    by (auto simp: setupUserAudioCapture_admit_def js_size_def js_add_def Let_def)
next
  case (TimeoutFires key)
  assume a: "js_size (processingQueue s) \<le> MAX_CONCURRENT"
  have "js_size (processingQueue (processing_timeout key s)) \<le> js_size (processingQueue s)"
    by (simp add: processing_timeout_def Let_def js_size_delete)
  with a show ?thesis using TimeoutFires by simp
next
  case (TaskEnds task env)
  assume a: "js_size (processingQueue s) \<le> MAX_CONCURRENT"
  show ?thesis using a TaskEnds js_size_delete [of "processingKey task" "processingQueue s"]
    by (simp add: pipeline_processingQueue)
qed

lemma ap_run_size:
  "js_size (processingQueue s) \<le> MAX_CONCURRENT \<Longrightarrow>
   js_size (processingQueue (ap_run evs s)) \<le> MAX_CONCURRENT"
  unfolding ap_run_def
  by (induction evs arbitrary: s) (simp_all add: ap_step_size)

lemma fst_admit_all_Cons:
  "fst (admit_all ((u, now, now') # evs) s) =
     (fst (setupUserAudioCapture_admit u now now' s) \<noteq> None) #
     fst (admit_all evs (snd (setupUserAudioCapture_admit u now now' s)))"
  by (simp split: prod.split)

lemma admit_all_count:
  assumes "distinct (map (\<lambda>ev. user_id (fst ev)) evs)"
    and "\<forall>ev \<in> set evs. user_id (fst ev) \<notin> set (activeUsers s)"
    and "queue_owned s"
  shows "count_list (fst (admit_all evs s)) True =
           min (length evs) (MAX_CONCURRENT - js_size (processingQueue s))"
  using assms
proof (induction evs arbitrary: s)
  case Nil
  then show ?case by simp
next
  case (Cons ev evs)
  obtain u now now' where ev: "ev = (u, now, now')" by (cases ev) auto
  have u_new: "user_id u \<notin> set (activeUsers s)" using Cons.prems(2) ev by simp
  show ?case
  proof (cases "js_size (processingQueue s) \<ge> MAX_CONCURRENT")
    case True
    then have adm: "setupUserAudioCapture_admit u now now' s = (None, s)"
      by (simp add: setupUserAudioCapture_admit_def)
    have "count_list (fst (admit_all evs s)) True =
            min (length evs) (MAX_CONCURRENT - js_size (processingQueue s))"
      using Cons.IH [of s] Cons.prems by simp
    with True adm ev show ?thesis by (simp add: fst_admit_all_Cons del: admit_all.simps)
  next
    case False
    define key where "key = processing_key (user_id u) now"
    define s1 where "s1 = s\<lparr>activeUsers := js_add (user_id u) (activeUsers s),
               processingQueue := js_add key (processingQueue s),
               timeouts := timeouts s @ [key]\<rparr>"
    have adm: "setupUserAudioCapture_admit u now now' s =
        (Some \<lparr>task_user = u, processingKey = key, filename = pcm_filename (user_id u) now'\<rparr>, s1)"
      using False u_new
      by (simp add: setupUserAudioCapture_admit_def js_has_def Let_def key_def s1_def)
    have key_new: "key \<notin> set (processingQueue s)"
    proof
      assume "key \<in> set (processingQueue s)"
      then obtain u' t where "u' \<in> set (activeUsers s)" and "key = processing_key u' t"
        using Cons.prems(3) by (auto simp: queue_owned_def)
      then have "user_id u = u'" using processing_key_inj [of "user_id u" now u' t]
        by (simp add: key_def)
      with \<open>u' \<in> set (activeUsers s)\<close> u_new show False by simp
    qed
    have q1: "processingQueue s1 = processingQueue s @ [key]"
      and a1: "activeUsers s1 = activeUsers s @ [user_id u]"
      using key_new u_new by (simp_all add: s1_def js_add_def)
    have owned1: "queue_owned s1"
      using Cons.prems(3) unfolding queue_owned_def q1 a1
      by (auto simp: key_def)
    have fresh1: "\<forall>ev \<in> set evs. user_id (fst ev) \<notin> set (activeUsers s1)"
      using Cons.prems(1,2) ev unfolding a1 by (auto simp: image_iff)
    have "count_list (fst (admit_all evs s1)) True =
            min (length evs) (MAX_CONCURRENT - js_size (processingQueue s1))"
      using Cons.IH [of s1] Cons.prems(1) fresh1 owned1 by simp
    with False adm ev q1 show ?thesis
      by (simp add: js_size_def fst_admit_all_Cons del: admit_all.simps)
  qed
qed

lemma admit_all_length_aux: "admit_all evs s = (rs, s') \<Longrightarrow> length rs = length evs"
  by (induction evs arbitrary: s rs s') (auto split: prod.splits)

lemma admit_all_length: "length (fst (admit_all evs s)) = length evs"
  using admit_all_length_aux [of evs s] by (cases "admit_all evs s") simp

lemma count_bools: "count_list rs True + count_list rs False = length rs"
  by (induction rs) auto


text \<open>
  Claim C2. A call of \<^verbatim>\<open>setupUserAudioCapture\<close> that finds \<^verbatim>\<open>MAX_CONCURRENT\<close> or more keys
  in the in-flight set is rejected and changes nothing; whatever speaker-start events,
  timeouts and task ends happen, the in-flight set never holds more than
  \<^verbatim>\<open>MAX_CONCURRENT\<close> keys; and of \<open>n\<close> speaker-start events of distinct speakers that arrive
  together while nothing is in flight, with \<open>n\<close> above the ceiling, exactly
  \<^verbatim>\<open>MAX_CONCURRENT\<close> are admitted and the other \<open>n - MAX_CONCURRENT\<close> are rejected.
\<close>

theorem C2_concurrency_ceiling:
  "(MAX_CONCURRENT \<le> js_size (processingQueue s) \<longrightarrow>
      setupUserAudioCapture_admit u now now' s = (None, s))
   \<and> js_size (processingQueue (ap_run evs new_audio_processor)) \<le> MAX_CONCURRENT
   \<and> (processingQueue s0 = []
        \<and> distinct (map (\<lambda>ev. user_id (fst ev)) starts)
        \<and> (\<forall>ev \<in> set starts. user_id (fst ev) \<notin> set (activeUsers s0))
        \<and> MAX_CONCURRENT < length starts \<longrightarrow>
      count_list (fst (admit_all starts s0)) True = MAX_CONCURRENT
      \<and> count_list (fst (admit_all starts s0)) False = length starts - MAX_CONCURRENT)"
proof (intro conjI impI)
  assume "MAX_CONCURRENT \<le> js_size (processingQueue s)"
  then show "setupUserAudioCapture_admit u now now' s = (None, s)"
    by (simp add: setupUserAudioCapture_admit_def)
next
  show "js_size (processingQueue (ap_run evs new_audio_processor)) \<le> MAX_CONCURRENT"
    by (rule ap_run_size) (simp add: new_audio_processor_def js_size_def)
next
  assume a: "processingQueue s0 = []
        \<and> distinct (map (\<lambda>ev. user_id (fst ev)) starts)
        \<and> (\<forall>ev \<in> set starts. user_id (fst ev) \<notin> set (activeUsers s0))
        \<and> MAX_CONCURRENT < length starts"
  then have "queue_owned s0" by (simp add: queue_owned_def)
  with a have "count_list (fst (admit_all starts s0)) True =
      min (length starts) (MAX_CONCURRENT - js_size (processingQueue s0))"
    using admit_all_count [of starts s0] by simp
  with a show t: "count_list (fst (admit_all starts s0)) True = MAX_CONCURRENT"
    by (simp add: js_size_def)
  show "count_list (fst (admit_all starts s0)) False = length starts - MAX_CONCURRENT"
    using t count_bools [of "fst (admit_all starts s0)"] admit_all_length [of starts s0]
    by simp
qed

theorem C2_concurrency_ceiling_witness:
  "setupUserAudioCapture_admit \<lparr>user_id = ''6'', username = ''f''\<rparr> 7 7
      (new_audio_processor\<lparr>processingQueue := [''1-0'', ''2-0'', ''3-0'', ''4-0'', ''5-0'']\<rparr>)
     = (None, new_audio_processor\<lparr>processingQueue := [''1-0'', ''2-0'', ''3-0'', ''4-0'', ''5-0'']\<rparr>)
   \<and> js_size (processingQueue (ap_run
         [SpeakerStart \<lparr>user_id = ''1'', username = ''a''\<rparr> 0 0, TimeoutFires ''1-0'',
          SpeakerStart \<lparr>user_id = ''2'', username = ''b''\<rparr> 1 1 :: unit ap_event]
         new_audio_processor)) \<le> 5
   \<and> count_list (fst (admit_all
         [(\<lparr>user_id = ''1'', username = ''a''\<rparr>, 0, 0), (\<lparr>user_id = ''2'', username = ''b''\<rparr>, 0, 0),
          (\<lparr>user_id = ''3'', username = ''c''\<rparr>, 0, 0), (\<lparr>user_id = ''4'', username = ''d''\<rparr>, 0, 0),
          (\<lparr>user_id = ''5'', username = ''e''\<rparr>, 0, 0), (\<lparr>user_id = ''6'', username = ''f''\<rparr>, 0, 0)]
         new_audio_processor)) True = 5
   \<and> count_list (fst (admit_all
         [(\<lparr>user_id = ''1'', username = ''a''\<rparr>, 0, 0), (\<lparr>user_id = ''2'', username = ''b''\<rparr>, 0, 0),
          (\<lparr>user_id = ''3'', username = ''c''\<rparr>, 0, 0), (\<lparr>user_id = ''4'', username = ''d''\<rparr>, 0, 0),
          (\<lparr>user_id = ''5'', username = ''e''\<rparr>, 0, 0), (\<lparr>user_id = ''6'', username = ''f''\<rparr>, 0, 0)]
         new_audio_processor)) False = 1"
  using C2_concurrency_ceiling
    [of "new_audio_processor\<lparr>processingQueue := [''1-0'', ''2-0'', ''3-0'', ''4-0'', ''5-0'']\<rparr>"
        "\<lparr>user_id = ''6'', username = ''f''\<rparr>" 7 7
        "[SpeakerStart \<lparr>user_id = ''1'', username = ''a''\<rparr> 0 0, TimeoutFires ''1-0'',
          SpeakerStart \<lparr>user_id = ''2'', username = ''b''\<rparr> 1 1 :: unit ap_event]"
        new_audio_processor
        "[(\<lparr>user_id = ''1'', username = ''a''\<rparr>, 0, 0), (\<lparr>user_id = ''2'', username = ''b''\<rparr>, 0, 0),
          (\<lparr>user_id = ''3'', username = ''c''\<rparr>, 0, 0), (\<lparr>user_id = ''4'', username = ''d''\<rparr>, 0, 0),
          (\<lparr>user_id = ''5'', username = ''e''\<rparr>, 0, 0), (\<lparr>user_id = ''6'', username = ''f''\<rparr>, 0, 0)]"]
  by (simp add: MAX_CONCURRENT_def js_size_def new_audio_processor_def)

section \<open>Properties of the quality gate\<close>

lemma int16_samples_length: "length (int16_samples b) = length b div 2"
  by (induction b rule: int16_samples.induct) simp_all

lemma foldl_squares:
  "foldl (\<lambda>sumSquares x. sumSquares + sint x * sint x) a xs = a + (\<Sum>x\<leftarrow>xs. sint x * sint x)"
  by (induction xs arbitrary: a) simp_all

lemma sum_squares_sum_list: "sum_squares xs = (\<Sum>x\<leftarrow>xs. sint x * sint x)"
  by (simp add: sum_squares_def foldl_squares)

lemma sum_squares_nonneg: "0 \<le> sum_squares xs"
  unfolding sum_squares_sum_list by (rule sum_list_nonneg) auto

lemma audio_energy_Num:
  assumes "2 \<le> length buffer"
  shows "audio_energy buffer =
           Num (sqrt (real_of_int (sum_squares (int16_samples buffer)) /
                      real (length (int16_samples buffer))))"
proof -
  have "0 < length (int16_samples buffer)" using assms by (simp add: int16_samples_length)
  moreover have "0 \<le> real_of_int (sum_squares (int16_samples buffer)) /
                      real (length (int16_samples buffer))"
    using sum_squares_nonneg by simp
  ultimately show ?thesis
    by (simp add: audio_energy_def js_divide_def Let_def)
qed

lemma audio_energy_empty: "length buffer < 2 \<Longrightarrow> audio_energy buffer = NaN"
  by (cases buffer rule: int16_samples.cases)
     (simp_all add: audio_energy_def js_divide_def sum_squares_def)

lemma sum_squares_real:
  "real_of_int (sum_squares xs) = (\<Sum>x\<leftarrow>xs. (real_of_int (sint x))\<^sup>2)"
  unfolding sum_squares_sum_list by (induction xs) (simp_all add: power2_eq_square)

lemma audio_energy_rms: "2 \<le> length buffer \<Longrightarrow> audio_energy buffer = Num (rms_energy buffer)"
  by (simp add: audio_energy_Num rms_energy_def sum_squares_real)

lemma try_Captured:
  assumes "capture env = Captured b"
  shows "setupUserAudioCapture_try env task s =
     (let f = filename task; s1 = s\<lparr>files := (files s)(f \<mapsto> b)\<rparr>;
          gone = s\<lparr>files := (files s)(f := None)\<rparr>
      in if length b < MIN_AUDIO_BYTES then (AudioTooSmall, gone)
         else if durationMs (length b) < MIN_AUDIO_DURATION_MS then (AudioTooShort, gone)
         else if js_less (audio_energy b) MIN_ENERGY
           then (EnergyTooLow,
                 s\<lparr>energy_log := energy_log s @ [audio_energy b], files := (files s)(f := None)\<rparr>)
         else (case transcribeAudio (ffmpeg env) (vosk env) f (files s1) of
                 (Inl e, called, fs2) \<Rightarrow>
                   (Thrown e, s\<lparr>energy_log := energy_log s @ [audio_energy b], files := fs2\<rparr>)
               | (Inr text, called, fs2) \<Rightarrow>
                   unlink_then (Completed text) f
                     (deliver (task_user task) text
                        (s\<lparr>energy_log := energy_log s @ [audio_energy b], files := fs2\<rparr>))))"
  using assms
  by (simp add: setupUserAudioCapture_try_def write_file_def statSync_size_def unlink_then_def
      unlinkSync_def calculateAudioEnergy_def readFileSync_def Let_def
      split: prod.split sum.split)

lemma unlink_then_exit:
  "fst (unlink_then exit f s) = exit \<or> (\<exists>e. fst (unlink_then exit f s) = Thrown e)"
  by (simp add: unlink_then_def split: sum.split)

lemma try_accepted_exit:
  assumes "capture env = Captured b"
    and "\<not> length b < MIN_AUDIO_BYTES"
    and "\<not> durationMs (length b) < MIN_AUDIO_DURATION_MS"
    and "\<not> js_less (audio_energy b) MIN_ENERGY"
  shows "(\<exists>text. fst (setupUserAudioCapture_try env task s) = Completed text)
         \<or> (\<exists>e. fst (setupUserAudioCapture_try env task s) = Thrown e)"
proof -
  let ?f = "filename task"
  let ?s1 = "s\<lparr>files := (files s)(?f \<mapsto> b)\<rparr>"
  obtain r called fs2 where t: "transcribeAudio (ffmpeg env) (vosk env) ?f (files ?s1) = (r, called, fs2)"
    by (cases "transcribeAudio (ffmpeg env) (vosk env) ?f (files ?s1)") auto
  show ?thesis
  proof (cases r)
    case (Inl e)
    with t assms show ?thesis by (simp add: try_Captured)
  next
    case (Inr transcript)
    with t assms
    have "setupUserAudioCapture_try env task s =
            unlink_then (Completed transcript) ?f
              (deliver (task_user task) transcript
                 (s\<lparr>energy_log := energy_log s @ [audio_energy b], files := fs2\<rparr>))"
      by (simp add: try_Captured)
    then show ?thesis
      using unlink_then_exit [of "Completed transcript" ?f
          "deliver (task_user task) transcript
             (s\<lparr>energy_log := energy_log s @ [audio_energy b], files := fs2\<rparr>)"]
      by auto
  qed
qed

lemma pipeline_fst:
  "open_streams env = None \<Longrightarrow>
   fst (setupUserAudioCapture_pipeline env task s) = fst (setupUserAudioCapture_try env task s)"
  by (simp add: pipeline_started)

lemma pipeline_snd_not_thrown:
  "open_streams env = None \<Longrightarrow>
   \<forall>e. fst (setupUserAudioCapture_try env task s) \<noteq> Thrown e \<Longrightarrow>
   snd (setupUserAudioCapture_pipeline env task s) =
     finally_release task (snd (setupUserAudioCapture_try env task s))"
  by (auto simp: pipeline_started split: pipeline_exit.split)

lemma finally_release_files: "files (finally_release task s) = files s"
  and finally_release_transcriptions: "transcriptions (finally_release task s) = transcriptions s"
  and finally_release_energy_log: "energy_log (finally_release task s) = energy_log s"
  by (simp_all add: finally_release_def)

lemma int16_samples_replicate:
  "int16_samples (replicate (2 * n) x) = replicate n (word_cat x x)"
  by (induction n) simp_all

lemma sum_squares_replicate: "sum_squares (replicate n w) = int n * (sint w * sint w)"
  unfolding sum_squares_sum_list by (induction n) (simp_all add: algebra_simps)

lemma int16_samples_pairs:
  "int16_samples (concat (replicate n [lo, hi])) = replicate n (word_cat hi lo)"
  by (induction n) simp_all

lemma audio_energy_constant:
  assumes "int16_samples b = replicate n w" and "0 < n" and "sint w = v" and "0 \<le> v"
  shows "audio_energy b = Num (real_of_int v)"
proof -
  have "length b div 2 = n" using assms(1) int16_samples_length [of b] by simp
  with assms(2) have two: "2 \<le> length b" by (cases "length b < 2") auto
  have "real_of_int (sum_squares (int16_samples b)) / real (length (int16_samples b)) =
          real_of_int v * real_of_int v"
    using assms(2) by (simp add: assms(1) sum_squares_replicate assms(3))
  moreover have "sqrt (real_of_int v * real_of_int v) = real_of_int v"
    using assms(4) by simp
  ultimately show ?thesis by (simp add: audio_energy_Num [OF two])
qed

lemma rms_energy_constant:
  assumes "int16_samples b = replicate n w" and "0 < n" and "sint w = v" and "0 \<le> v"
  shows "rms_energy b = real_of_int v"
proof -
  have "length b div 2 = n" using assms(1) int16_samples_length [of b] by simp
  with assms(2) have "2 \<le> length b" by (cases "length b < 2") auto
  then show ?thesis
    using audio_energy_constant [OF assms] audio_energy_rms [of b] by simp
qed

lemma samples_loud:
  "int16_samples loud_segment = replicate 48000 (word_cat (127 :: byte) (127 :: byte))"
  using int16_samples_replicate [of 48000 "127 :: byte"] by (simp add: loud_segment_def)

lemma samples_silent:
  "int16_samples silent_segment = replicate 192000 (word_cat (0 :: byte) (0 :: byte))"
  using int16_samples_replicate [of 192000 "0 :: byte"] by (simp add: silent_segment_def)

lemma samples_faint:
  "int16_samples faint_segment = replicate 48000 (word_cat (0 :: byte) (99 :: byte))"
  by (simp add: faint_segment_def int16_samples_pairs)

lemma samples_audible:
  "int16_samples audible_segment = replicate 48000 (word_cat (0 :: byte) (100 :: byte))"
  by (simp add: audible_segment_def int16_samples_pairs)

lemma sample_values:
  "sint (word_cat (127 :: byte) (127 :: byte) :: 16 word) = 32639"
  "sint (word_cat (0 :: byte) (0 :: byte) :: 16 word) = 0"
  "sint (word_cat (0 :: byte) (99 :: byte) :: 16 word) = 99"
  "sint (word_cat (0 :: byte) (100 :: byte) :: 16 word) = 100"
  by (simp_all add: word_cat_eq)

lemma audio_energy_loud: "audio_energy loud_segment = Num 32639"
  using audio_energy_constant [OF samples_loud _ sample_values(1)] by simp

lemma audio_energy_silent: "audio_energy silent_segment = Num 0"
  using audio_energy_constant [OF samples_silent _ sample_values(2)] by simp

lemma rms_energy_loud: "rms_energy loud_segment = 32639"
  using rms_energy_constant [OF samples_loud _ sample_values(1)] by simp

lemma rms_energy_silent: "rms_energy silent_segment = 0"
  using rms_energy_constant [OF samples_silent _ sample_values(2)] by simp

lemma rms_energy_faint: "rms_energy faint_segment = 99"
  using rms_energy_constant [OF samples_faint _ sample_values(3)] by simp

lemma rms_energy_audible: "rms_energy audible_segment = 100"
  using rms_energy_constant [OF samples_audible _ sample_values(4)] by simp

lemma segment_lengths:
  "length tiny_segment = 2047"
  "length small_segment = 2048"
  "length short_segment = 95998"
  "length silent_segment = 384000"
  "length loud_segment = 96000"
  "length faint_segment = 96000"
  "length audible_segment = 96000"
  by (simp_all add: tiny_segment_def small_segment_def short_segment_def silent_segment_def
      loud_segment_def faint_segment_def audible_segment_def length_concat sum_list_replicate)

lemma durationMs_estimated: "durationMs (length b) = estimated_duration b"
  by (simp add: durationMs_def estimated_duration_def)

text \<open>
  Claim C4. For a captured segment \<open>b\<close>, the call leaves at the byte-length check exactly
  when the byte length is below \<^verbatim>\<open>MIN_AUDIO_BYTES\<close>, at the duration check exactly when the
  first check passed and the estimated duration (byte length / 192000 * 1000) is below
  \<^verbatim>\<open>MIN_AUDIO_DURATION_MS\<close>, and at the energy check exactly when the first two passed
  and the RMS energy is below \<^verbatim>\<open>MIN_ENERGY\<close>; so it rejects exactly when one of the three
  conditions holds, the first failing check in that order deciding. On every rejection
  the scratch file is gone when the call returns, and \<^verbatim>\<open>onTranscription\<close> was not called.
  The duration and the energy are those of the specification, \<open>estimated_duration\<close> and
  \<open>rms_energy\<close>.
\<close>

theorem C4_quality_gate:
  assumes "open_streams env = None" and "capture env = Captured b"
  shows "(fst (setupUserAudioCapture_pipeline env task s) = AudioTooSmall \<longleftrightarrow>
            length b < MIN_AUDIO_BYTES)
       \<and> (fst (setupUserAudioCapture_pipeline env task s) = AudioTooShort \<longleftrightarrow>
            \<not> length b < MIN_AUDIO_BYTES \<and> estimated_duration b < MIN_AUDIO_DURATION_MS)
       \<and> (fst (setupUserAudioCapture_pipeline env task s) = EnergyTooLow \<longleftrightarrow>
            \<not> length b < MIN_AUDIO_BYTES \<and> \<not> estimated_duration b < MIN_AUDIO_DURATION_MS
            \<and> rms_energy b < MIN_ENERGY)
       \<and> (fst (setupUserAudioCapture_pipeline env task s) \<in> {AudioTooSmall, AudioTooShort, EnergyTooLow} \<longleftrightarrow>
            length b < MIN_AUDIO_BYTES \<or> estimated_duration b < MIN_AUDIO_DURATION_MS
            \<or> rms_energy b < MIN_ENERGY)
       \<and> (fst (setupUserAudioCapture_pipeline env task s) \<in> {AudioTooSmall, AudioTooShort, EnergyTooLow} \<longrightarrow>
            files (snd (setupUserAudioCapture_pipeline env task s)) (filename task) = None
            \<and> transcriptions (snd (setupUserAudioCapture_pipeline env task s)) = transcriptions s)"
proof -
  let ?exit = "fst (setupUserAudioCapture_try env task s)"
  let ?s' = "snd (setupUserAudioCapture_try env task s)"
  have d: "durationMs (length b) = estimated_duration b" by (rule durationMs_estimated)
  consider (small) "length b < MIN_AUDIO_BYTES"
    | (short) "\<not> length b < MIN_AUDIO_BYTES" "estimated_duration b < MIN_AUDIO_DURATION_MS"
    | (quiet) "\<not> length b < MIN_AUDIO_BYTES" "\<not> estimated_duration b < MIN_AUDIO_DURATION_MS"
        "rms_energy b < MIN_ENERGY"
    | (accepted) "\<not> length b < MIN_AUDIO_BYTES" "\<not> estimated_duration b < MIN_AUDIO_DURATION_MS"
        "\<not> rms_energy b < MIN_ENERGY"
    by blast
  then have main: "(?exit = AudioTooSmall \<longleftrightarrow> length b < MIN_AUDIO_BYTES)
       \<and> (?exit = AudioTooShort \<longleftrightarrow>
            \<not> length b < MIN_AUDIO_BYTES \<and> estimated_duration b < MIN_AUDIO_DURATION_MS)
       \<and> (?exit = EnergyTooLow \<longleftrightarrow>
            \<not> length b < MIN_AUDIO_BYTES \<and> \<not> estimated_duration b < MIN_AUDIO_DURATION_MS
            \<and> rms_energy b < MIN_ENERGY)
       \<and> (?exit \<in> {AudioTooSmall, AudioTooShort, EnergyTooLow} \<longrightarrow>
            (\<forall>e. ?exit \<noteq> Thrown e) \<and> files ?s' (filename task) = None
            \<and> transcriptions ?s' = transcriptions s)"
  proof cases
    case small
    then show ?thesis using assms(2) by (simp add: try_Captured)
  next
    case short
    then show ?thesis using assms(2) by (simp add: try_Captured d)
  next
    case quiet
    then have "2 \<le> length b" by (simp add: MIN_AUDIO_BYTES_def)
    then have "audio_energy b = Num (rms_energy b)" by (rule audio_energy_rms)
    with quiet show ?thesis using assms(2) by (simp add: try_Captured d)
  next
    case accepted
    then have "2 \<le> length b" by (simp add: MIN_AUDIO_BYTES_def)
    then have "audio_energy b = Num (rms_energy b)" by (rule audio_energy_rms)
    with accepted have "\<not> js_less (audio_energy b) MIN_ENERGY" by simp
    with accepted assms(2)
    have "(\<exists>text. ?exit = Completed text) \<or> (\<exists>e. ?exit = Thrown e)"
      using try_accepted_exit [of env b task s] by (simp add: d)
    with accepted show ?thesis by auto
  qed
  show ?thesis
    unfolding pipeline_fst [OF assms(1)]
    using main pipeline_snd_not_thrown [OF assms(1), of task s]
    by (auto simp: finally_release_files finally_release_transcriptions)
qed

theorem C4_quality_gate_witness:
  "fst (setupUserAudioCapture_pipeline (segment_env tiny_segment) example_task
         new_audio_processor) = AudioTooSmall
   \<and> fst (setupUserAudioCapture_pipeline (segment_env small_segment) example_task
         new_audio_processor) = AudioTooShort
   \<and> fst (setupUserAudioCapture_pipeline (segment_env short_segment) example_task
         new_audio_processor) = AudioTooShort
   \<and> fst (setupUserAudioCapture_pipeline (segment_env silent_segment) example_task
         new_audio_processor) = EnergyTooLow
   \<and> fst (setupUserAudioCapture_pipeline (segment_env faint_segment) example_task
         new_audio_processor) = EnergyTooLow
   \<and> fst (setupUserAudioCapture_pipeline (segment_env audible_segment) example_task
         new_audio_processor) \<notin> {AudioTooSmall, AudioTooShort, EnergyTooLow}
   \<and> fst (setupUserAudioCapture_pipeline (segment_env loud_segment) example_task
         new_audio_processor) \<notin> {AudioTooSmall, AudioTooShort, EnergyTooLow}
   \<and> files (snd (setupUserAudioCapture_pipeline (segment_env small_segment) example_task
         new_audio_processor)) (filename example_task) = None
   \<and> transcriptions (snd (setupUserAudioCapture_pipeline (segment_env faint_segment)
         example_task new_audio_processor)) = []"
proof -
  have o: "open_streams (segment_env b) = None" for b
    by (simp add: segment_env_def talking_env_def)
  have c: "capture (segment_env b) = Captured b" for b
    by (simp add: segment_env_def)
  have n: "transcriptions new_audio_processor = []" by (simp add: new_audio_processor_def)
  note thresholds = MIN_AUDIO_BYTES_def MIN_AUDIO_DURATION_MS_def MIN_ENERGY_def
    estimated_duration_def segment_lengths
  have tiny: "fst (setupUserAudioCapture_pipeline (segment_env tiny_segment) example_task
         new_audio_processor) = AudioTooSmall"
    using C4_quality_gate [OF o c, of tiny_segment example_task new_audio_processor]
    by (simp add: thresholds)
  have small: "fst (setupUserAudioCapture_pipeline (segment_env small_segment) example_task
         new_audio_processor) = AudioTooShort
      \<and> files (snd (setupUserAudioCapture_pipeline (segment_env small_segment) example_task
         new_audio_processor)) (filename example_task) = None"
    using C4_quality_gate [OF o c, of small_segment example_task new_audio_processor]
    by (simp add: thresholds)
  have short: "fst (setupUserAudioCapture_pipeline (segment_env short_segment) example_task
         new_audio_processor) = AudioTooShort"
    using C4_quality_gate [OF o c, of short_segment example_task new_audio_processor]
    by (simp add: thresholds)
  have silent: "fst (setupUserAudioCapture_pipeline (segment_env silent_segment) example_task
         new_audio_processor) = EnergyTooLow"
    using C4_quality_gate [OF o c, of silent_segment example_task new_audio_processor]
    by (simp add: thresholds rms_energy_silent)
  have faint: "fst (setupUserAudioCapture_pipeline (segment_env faint_segment) example_task
         new_audio_processor) = EnergyTooLow
      \<and> transcriptions (snd (setupUserAudioCapture_pipeline (segment_env faint_segment)
           example_task new_audio_processor)) = []"
    using C4_quality_gate [OF o c, of faint_segment example_task new_audio_processor]
    by (simp add: thresholds rms_energy_faint n)
  have audible: "fst (setupUserAudioCapture_pipeline (segment_env audible_segment) example_task
         new_audio_processor) \<notin> {AudioTooSmall, AudioTooShort, EnergyTooLow}"
    using C4_quality_gate [OF o c, of audible_segment example_task new_audio_processor]
    by (simp add: thresholds rms_energy_audible)
  have loud: "fst (setupUserAudioCapture_pipeline (segment_env loud_segment) example_task
         new_audio_processor) \<notin> {AudioTooSmall, AudioTooShort, EnergyTooLow}"
    using C4_quality_gate [OF o c, of loud_segment example_task new_audio_processor]
    by (simp add: thresholds rms_energy_loud)
  show ?thesis using tiny small short silent faint audible loud by simp
qed

lemma pipeline_energy_log_Captured:
  assumes "open_streams env = None" and "capture env = Captured b"
  shows "energy_log (snd (setupUserAudioCapture_pipeline env task s)) =
     (if length b < MIN_AUDIO_BYTES \<or> durationMs (length b) < MIN_AUDIO_DURATION_MS
      then energy_log s else energy_log s @ [audio_energy b])"
proof -
  have fin: "energy_log (snd (setupUserAudioCapture_pipeline env task s)) =
      energy_log (snd (setupUserAudioCapture_try env task s))"
    using assms(1)
    by (simp add: pipeline_started finally_release_energy_log catch_cleanup_def
        split: pipeline_exit.split sum.split)
  have u: "energy_log (snd (unlink_then exit f s')) = energy_log s'" for exit f s'
    by (simp add: unlink_then_def split: sum.split)
  have dl: "energy_log (deliver u t s') = energy_log s'" for u t s'
    by (simp add: deliver_def)
  show ?thesis
    unfolding fin
    by (simp add: try_Captured [OF assms(2)] Let_def u dl split: prod.split sum.split)
qed

lemma pipeline_energy_log:
  "energy_log (snd (setupUserAudioCapture_pipeline env task s)) = energy_log s
   \<or> (\<exists>b. open_streams env = None \<and> capture env = Captured b \<and> MIN_AUDIO_BYTES \<le> length b
          \<and> MIN_AUDIO_DURATION_MS \<le> durationMs (length b)
          \<and> energy_log (snd (setupUserAudioCapture_pipeline env task s)) =
              energy_log s @ [audio_energy b])"
proof (cases "open_streams env")
  case (Some e)
  then show ?thesis by (simp add: pipeline_not_started)
next
  case None
  show ?thesis
  proof (cases "capture env")
    case (CaptureFailed e left)
    have "energy_log (snd (setupUserAudioCapture_pipeline env task s)) =
      energy_log (snd (setupUserAudioCapture_try env task s))"
      using None
      by (simp add: pipeline_started finally_release_energy_log catch_cleanup_def
          split: pipeline_exit.split sum.split)
    with CaptureFailed show ?thesis by (simp add: setupUserAudioCapture_try_def Let_def)
  next
    case (Captured b)
    show ?thesis
      using pipeline_energy_log_Captured [OF None Captured, of task s] None Captured
      by auto
  qed
qed

section \<open>Properties of the pipeline\<close>

lemma catch_cleanup_file_gone: "files (catch_cleanup f s) f = None"
  by (simp add: catch_cleanup_def existsSync_def unlinkSync_def split: option.split)

lemma unlink_then_file_gone:
  "\<forall>e. fst (unlink_then exit f s) \<noteq> Thrown e \<Longrightarrow> files (snd (unlink_then exit f s)) f = None"
  by (simp add: unlink_then_def unlinkSync_def split: option.splits)

lemma try_file_gone:
  "\<forall>e. fst (setupUserAudioCapture_try env task s) \<noteq> Thrown e \<Longrightarrow>
   files (snd (setupUserAudioCapture_try env task s)) (filename task) = None"
  unfolding setupUserAudioCapture_try_def Let_def
  by (auto split: option.splits sum.splits prod.splits if_splits
      simp: unlink_then_file_gone)

lemma pipeline_file_gone:
  assumes "open_streams env = None"
  shows "files (snd (setupUserAudioCapture_pipeline env task s)) (filename task) = None"
proof (cases "\<exists>e. fst (setupUserAudioCapture_try env task s) = Thrown e")
  case True
  then obtain e where "fst (setupUserAudioCapture_try env task s) = Thrown e" by blast
  then show ?thesis
    using assms by (simp add: pipeline_started finally_release_files catch_cleanup_file_gone)
next
  case False
  then have nt: "\<forall>e. fst (setupUserAudioCapture_try env task s) \<noteq> Thrown e" by blast
  show ?thesis
    using try_file_gone [OF nt] pipeline_snd_not_thrown [OF assms nt]
    by (simp add: finally_release_files)
qed

lemma admitted_registered:
  assumes "setupUserAudioCapture_admit u now now' s0 = (Some task, s1)"
  shows "processingKey task \<in> set (processingQueue s1)"
    and "user_id (task_user task) \<in> set (activeUsers s1)"
    and "processingKey task \<in> set (timeouts s1)"
  using assms
  by (auto simp: setupUserAudioCapture_admit_def js_add_def Let_def split: if_splits)

text \<open>
  What the \<^verbatim>\<open>finally\<close> block achieves. When the streams were opened, the call ends, by
  whatever exit, with the key out of the in-flight set, the user out of the active-users
  set and the scratch file of the captured audio gone.
\<close>

lemma pipeline_release:
  assumes "open_streams env = None"
  shows "processingKey task \<notin> set (processingQueue (snd (setupUserAudioCapture_pipeline env task s)))"
    and "user_id (task_user task) \<notin> set (activeUsers (snd (setupUserAudioCapture_pipeline env task s)))"
    and "files (snd (setupUserAudioCapture_pipeline env task s)) (filename task) = None"
  using assms
  by (simp_all add: pipeline_processingQueue pipeline_activeUsers pipeline_file_gone js_delete_def)

lemma processing_timeout_eq:
  "key \<in> set (timeouts s) \<Longrightarrow>
   processing_timeout key s =
     s\<lparr>timeouts := remove1 key (timeouts s),
       processingQueue := js_delete key (processingQueue s)\<rparr>"
  by (simp add: processing_timeout_def Let_def js_has_def js_delete_def)

lemma try_frame:
  "setupUserAudioCapture_try env task (s\<lparr>timeouts := ts, processingQueue := q\<rparr>) =
     (fst (setupUserAudioCapture_try env task s),
      (snd (setupUserAudioCapture_try env task s))\<lparr>timeouts := ts, processingQueue := q\<rparr>)"
proof -
  define g where "g = (\<lambda>s :: audio_processor. s\<lparr>timeouts := ts, processingQueue := q\<rparr>)"
  have g_files: "files (g s) = files s" for s by (simp add: g_def)
  have g_tr: "transcriptions (g s) = transcriptions s" for s by (simp add: g_def)
  have g_en: "energy_log (g s) = energy_log s" for s by (simp add: g_def)
  have g_upd_files: "(g s)\<lparr>files := x\<rparr> = g (s\<lparr>files := x\<rparr>)" for s x by (simp add: g_def)
  have g_upd_tr: "(g s)\<lparr>transcriptions := x\<rparr> = g (s\<lparr>transcriptions := x\<rparr>)" for s x
    by (simp add: g_def)
  have g_upd_en: "(g s)\<lparr>energy_log := x\<rparr> = g (s\<lparr>energy_log := x\<rparr>)" for s x
    by (simp add: g_def)
  have unlink: "unlink_then exit f (g s) = (fst (unlink_then exit f s), g (snd (unlink_then exit f s)))"
    for exit f s
    by (simp add: unlink_then_def g_files g_upd_files split: sum.split)
  have del: "deliver u t (g s) = g (deliver u t s)" for u t s
    by (simp add: deliver_def g_tr g_upd_tr)
  have "setupUserAudioCapture_try env task (g s) =
     (fst (setupUserAudioCapture_try env task s), g (snd (setupUserAudioCapture_try env task s)))"
    unfolding setupUserAudioCapture_try_def Let_def
    by (simp add: g_files g_en g_upd_files g_upd_en unlink del
        split: option.split sum.split prod.split)
  then show ?thesis by (simp add: g_def)
qed

lemma pipeline_after_timeout:
  assumes "processingKey task \<in> set (timeouts s)"
  shows "fst (setupUserAudioCapture_pipeline env task (processing_timeout (processingKey task) s)) =
           fst (setupUserAudioCapture_pipeline env task s)"
    and "transcriptions (snd (setupUserAudioCapture_pipeline env task (processing_timeout (processingKey task) s))) =
           transcriptions (snd (setupUserAudioCapture_pipeline env task s))"
    and "files (snd (setupUserAudioCapture_pipeline env task (processing_timeout (processingKey task) s))) =
           files (snd (setupUserAudioCapture_pipeline env task s))"
proof -
  let ?k = "processingKey task"
  obtain x s1 where t: "setupUserAudioCapture_try env task s = (x, s1)"
    by (cases "setupUserAudioCapture_try env task s") auto
  have t': "setupUserAudioCapture_try env task (processing_timeout ?k s) =
         (x, s1\<lparr>timeouts := remove1 ?k (timeouts s),
               processingQueue := js_delete ?k (processingQueue s)\<rparr>)"
    using assms t by (simp add: processing_timeout_eq try_frame)
  have e: "transcriptions (processing_timeout ?k s) = transcriptions s"
    "files (processing_timeout ?k s) = files s"
    using assms by (simp_all add: processing_timeout_eq)
  show "fst (setupUserAudioCapture_pipeline env task (processing_timeout ?k s)) =
           fst (setupUserAudioCapture_pipeline env task s)"
    using t t' by (simp add: setupUserAudioCapture_pipeline_def split: option.split)
  show "transcriptions (snd (setupUserAudioCapture_pipeline env task (processing_timeout ?k s))) =
           transcriptions (snd (setupUserAudioCapture_pipeline env task s))"
    using t t' e
    by (simp add: setupUserAudioCapture_pipeline_def finally_release_def catch_cleanup_def
        split: pipeline_exit.split sum.split option.split)
  show "files (snd (setupUserAudioCapture_pipeline env task (processing_timeout ?k s))) =
           files (snd (setupUserAudioCapture_pipeline env task s))"
    using t t' e
    by (simp add: setupUserAudioCapture_pipeline_def finally_release_def catch_cleanup_def
        split: pipeline_exit.split sum.split option.split)
qed

lemma unlink_then_Completed:
  "fst (unlink_then (Completed t) f s) = Completed t' \<Longrightarrow>
   t' = t \<and> transcriptions (snd (unlink_then (Completed t) f s)) = transcriptions s"
  by (simp add: unlink_then_def split: sum.splits)

lemma unlink_then_transcriptions:
  "transcriptions (snd (unlink_then exit f s)) = transcriptions s"
  by (simp add: unlink_then_def split: sum.splits)

lemma try_Completed:
  assumes "fst (setupUserAudioCapture_try env task s) = Completed t"
  shows "transcriptions (snd (setupUserAudioCapture_try env task s)) =
           transcriptions (deliver (task_user task) t s)"
  using assms
  unfolding setupUserAudioCapture_try_def Let_def
  by (auto split: option.splits sum.splits prod.splits if_splits
      simp: unlink_then_def deliver_def)

lemma transcribe_talking:
  "fs (converted_name f) = None \<Longrightarrow>
   transcribeAudio (Closed 0 (Some [0, 0])) talking_backend f fs = (Inr ''touchdown'', True, fs)"
  by (simp add: transcribeAudio_def convertAudio_def write_file_def existsSync_def recognize_def
      recognizeAudio_def recognizeAudio_try_def talking_backend_def readFileSync_def
      recognize_chunks.simps chunkSize_def unlinkSync_def trim_def is_space_def fun_upd_idem
      final_text_def Let_def)

lemma admit_example:
  "setupUserAudioCapture_admit example_user 0 0 new_audio_processor =
     (Some example_task,
      new_audio_processor\<lparr>processingQueue := [''1-0''], activeUsers := [''1''], timeouts := [''1-0'']\<rparr>)"
  by (simp add: setupUserAudioCapture_admit_def example_user_def example_task_def
      new_audio_processor_def js_has_def js_size_def js_add_def MAX_CONCURRENT_def
      processing_key_def pcm_filename_def audioDir_def decimal.simps digit_char_def Let_def)

lemma talking_env_streams: "open_streams talking_env = None"
  by (simp add: talking_env_def)

lemma try_talking:
  assumes "files s = Map.empty"
  shows "fst (setupUserAudioCapture_try talking_env example_task s) = Completed ''touchdown''
       \<and> transcriptions (snd (setupUserAudioCapture_try talking_env example_task s)) =
           transcriptions s @ [(''1'', ''alice'', ''touchdown'')]
       \<and> energy_log (snd (setupUserAudioCapture_try talking_env example_task s)) =
           energy_log s @ [Num 32639]"
proof -
  let ?f = "filename example_task"
  have c: "capture talking_env = Captured loud_segment" by (simp add: talking_env_def)
  have l: "length loud_segment = 96000" by (simp add: loud_segment_def)
  have n: "[?f \<mapsto> loud_segment] (converted_name ?f) = None"
    by (simp add: converted_name_def example_task_def)
  have t: "transcribeAudio (ffmpeg talking_env) (vosk talking_env) ?f [?f \<mapsto> loud_segment] =
        (Inr ''touchdown'', True, [?f \<mapsto> loud_segment])"
    using n transcribe_talking [of "[?f \<mapsto> loud_segment]" ?f]
    by (simp add: talking_env_def)
  have d: "deliver (task_user example_task) ''touchdown'' s' =
        s'\<lparr>transcriptions := transcriptions s' @ [(''1'', ''alice'', ''touchdown'')]\<rparr>" for s'
    by (simp add: deliver_def trim_def is_space_def example_task_def)
  show ?thesis
    using assms
    by (simp add: try_Captured [OF c] l t d audio_energy_loud MIN_AUDIO_BYTES_def durationMs_def
        MIN_AUDIO_DURATION_MS_def MIN_ENERGY_def unlink_then_def unlinkSync_def Let_def)
qed

lemma pipeline_talking:
  assumes "files s = Map.empty"
  shows "fst (setupUserAudioCapture_pipeline talking_env example_task s) = Completed ''touchdown''
       \<and> transcriptions (snd (setupUserAudioCapture_pipeline talking_env example_task s)) =
           transcriptions s @ [(''1'', ''alice'', ''touchdown'')]
       \<and> energy_log (snd (setupUserAudioCapture_pipeline talking_env example_task s)) =
           energy_log s @ [Num 32639]"
proof -
  have nt: "\<forall>e. fst (setupUserAudioCapture_try talking_env example_task s) \<noteq> Thrown e"
    using try_talking [OF assms] by simp
  show ?thesis
    using try_talking [OF assms] pipeline_snd_not_thrown [OF talking_env_streams nt]
    by (simp add: pipeline_fst [OF talking_env_streams] finally_release_transcriptions
        finally_release_energy_log)
qed

text \<open>
  Claim C10. \<^verbatim>\<open>calculateAudioEnergy\<close> divides the sum of the squares by the number of
  16-bit samples, which is half the number of bytes. On a file of at least
  \<^verbatim>\<open>MIN_AUDIO_BYTES\<close> bytes that number is positive and the method returns a non-negative
  real, not \<open>NaN\<close>. And line 112, its only call, is reached only with such a file: whenever
  a call of \<^verbatim>\<open>setupUserAudioCapture\<close> gets a value of \<^verbatim>\<open>energy\<close> at all, the captured segment
  has at least \<^verbatim>\<open>MIN_AUDIO_BYTES\<close> bytes and the value is that non-negative real.
\<close>

theorem C10_energy_defined:
  "(fs f = Some buffer \<and> MIN_AUDIO_BYTES \<le> length buffer \<longrightarrow>
      length (int16_samples buffer) = length buffer div 2
      \<and> 0 < length (int16_samples buffer)
      \<and> (\<exists>r. calculateAudioEnergy f fs = Inr (Num r) \<and> 0 \<le> r
             \<and> r = sqrt (real_of_int (sum_squares (int16_samples buffer)) /
                         real (length (int16_samples buffer)))))
   \<and> (energy_log (snd (setupUserAudioCapture_pipeline env task s)) = energy_log s
      \<or> (\<exists>b r. capture env = Captured b \<and> MIN_AUDIO_BYTES \<le> length b
             \<and> 0 < length (int16_samples b) \<and> 0 \<le> r
             \<and> r = sqrt (real_of_int (sum_squares (int16_samples b)) /
                         real (length (int16_samples b)))
             \<and> energy_log (snd (setupUserAudioCapture_pipeline env task s)) =
                 energy_log s @ [Num r]))"
proof (intro conjI impI)
  assume a: "fs f = Some buffer \<and> MIN_AUDIO_BYTES \<le> length buffer"
  then have two: "2 \<le> length buffer" by (simp add: MIN_AUDIO_BYTES_def)
  show "length (int16_samples buffer) = length buffer div 2" by (rule int16_samples_length)
  show "0 < length (int16_samples buffer)" using two by (simp add: int16_samples_length)
  have "0 \<le> sqrt (real_of_int (sum_squares (int16_samples buffer)) /
                         real (length (int16_samples buffer)))"
    using sum_squares_nonneg [of "int16_samples buffer"] by simp
  then show "\<exists>r. calculateAudioEnergy f fs = Inr (Num r) \<and> 0 \<le> r
             \<and> r = sqrt (real_of_int (sum_squares (int16_samples buffer)) /
                         real (length (int16_samples buffer)))"
    using audio_energy_Num [OF two] a by (simp add: calculateAudioEnergy_def readFileSync_def)
next
  have "\<exists>r. 0 < length (int16_samples b) \<and> 0 \<le> r
          \<and> r = sqrt (real_of_int (sum_squares (int16_samples b)) / real (length (int16_samples b)))
          \<and> audio_energy b = Num r"
    if "MIN_AUDIO_BYTES \<le> length b" for b
  proof -
    from that have two: "2 \<le> length b" by (simp add: MIN_AUDIO_BYTES_def)
    have "0 \<le> sqrt (real_of_int (sum_squares (int16_samples b)) / real (length (int16_samples b)))"
      using sum_squares_nonneg [of "int16_samples b"] by simp
    then show ?thesis using audio_energy_Num [OF two] two by (simp add: int16_samples_length)
  qed
  then show "energy_log (snd (setupUserAudioCapture_pipeline env task s)) = energy_log s
      \<or> (\<exists>b r. capture env = Captured b \<and> MIN_AUDIO_BYTES \<le> length b
             \<and> 0 < length (int16_samples b) \<and> 0 \<le> r
             \<and> r = sqrt (real_of_int (sum_squares (int16_samples b)) /
                         real (length (int16_samples b)))
             \<and> energy_log (snd (setupUserAudioCapture_pipeline env task s)) =
                 energy_log s @ [Num r])"
    using pipeline_energy_log [of env task s] by metis
qed

theorem C10_energy_defined_witness:
  "(\<exists>r. calculateAudioEnergy (filename example_task) [filename example_task \<mapsto> loud_segment] =
          Inr (Num r) \<and> 0 \<le> r)
   \<and> length (int16_samples loud_segment) = 48000
   \<and> energy_log (snd (setupUserAudioCapture_pipeline talking_env example_task
         new_audio_processor)) = [Num 32639]
   \<and> energy_log (snd (setupUserAudioCapture_pipeline (segment_env silent_segment) example_task
         new_audio_processor)) = [Num 0]
   \<and> energy_log (snd (setupUserAudioCapture_pipeline (segment_env small_segment) example_task
         new_audio_processor)) = []"
proof -
  have o: "open_streams (segment_env b) = None" for b
    by (simp add: segment_env_def talking_env_def)
  have c: "capture (segment_env b) = Captured b" for b
    by (simp add: segment_env_def)
  have n: "energy_log new_audio_processor = []" by (simp add: new_audio_processor_def)
  have silent: "energy_log (snd (setupUserAudioCapture_pipeline (segment_env silent_segment)
      example_task new_audio_processor)) = [Num 0]"
    by (simp add: pipeline_energy_log_Captured [OF o c] segment_lengths audio_energy_silent n
        MIN_AUDIO_BYTES_def MIN_AUDIO_DURATION_MS_def durationMs_def)
  have small: "energy_log (snd (setupUserAudioCapture_pipeline (segment_env small_segment)
      example_task new_audio_processor)) = []"
    by (simp add: pipeline_energy_log_Captured [OF o c] segment_lengths n
        MIN_AUDIO_BYTES_def MIN_AUDIO_DURATION_MS_def durationMs_def)
  show ?thesis
    using C10_energy_defined
        [of "[filename example_task \<mapsto> loud_segment]" "filename example_task" loud_segment
            talking_env example_task new_audio_processor]
      pipeline_talking [of new_audio_processor] silent small
    by (simp add: MIN_AUDIO_BYTES_def segment_lengths new_audio_processor_def
        sum_squares_nonneg)
qed

lemma pipeline_no_opus:
  "setupUserAudioCapture_pipeline no_opus_env task s =
     (NotStarted (OtherError ''Could not find an Opus module''), s)"
  by (simp add: pipeline_not_started no_opus_env_def)

lemma transcribe_failing_ffmpeg:
  "transcribeAudio (Closed 1 (Some [0, 0])) backend f fs =
     (Inr [], False, fs(converted_name f \<mapsto> [0, 0]))"
  by (simp add: transcribeAudio_def convertAudio_def write_file_def Let_def)

lemma pipeline_failing_ffmpeg:
  "snd (setupUserAudioCapture_pipeline failing_ffmpeg_env example_task
     (new_audio_processor\<lparr>processingQueue := [''1-0''], activeUsers := [''1''], timeouts := [''1-0'']\<rparr>)) =
   new_audio_processor\<lparr>files := [converted_name (filename example_task) \<mapsto> [0, 0]],
     energy_log := [Num 32639]\<rparr>"
proof -
  let ?f = "filename example_task"
  let ?s = "new_audio_processor\<lparr>processingQueue := [''1-0''], activeUsers := [''1''],
              timeouts := [''1-0'']\<rparr>"
  have o: "open_streams failing_ffmpeg_env = None"
    and c: "capture failing_ffmpeg_env = Captured loud_segment"
    and ff: "ffmpeg failing_ffmpeg_env = Closed 1 (Some [0, 0])"
    by (simp_all add: failing_ffmpeg_env_def talking_env_def)
  have ne: "converted_name ?f \<noteq> ?f" by (simp add: converted_name_def)
  have t: "setupUserAudioCapture_try failing_ffmpeg_env example_task ?s =
      (Completed [], ?s\<lparr>energy_log := [Num 32639],
                        files := [converted_name ?f \<mapsto> [0, 0]]\<rparr>)"
    using ne
    by (simp add: try_Captured [OF c] ff transcribe_failing_ffmpeg segment_lengths audio_energy_loud
        MIN_AUDIO_BYTES_def durationMs_def MIN_AUDIO_DURATION_MS_def MIN_ENERGY_def
        unlink_then_def unlinkSync_def deliver_def new_audio_processor_def Let_def
        fun_upd_twist)
  have "snd (setupUserAudioCapture_pipeline failing_ffmpeg_env example_task ?s) =
      finally_release example_task
        (?s\<lparr>energy_log := [Num 32639], files := [converted_name ?f \<mapsto> [0, 0]]\<rparr>)"
    by (simp add: pipeline_started [OF o] t)
  then show ?thesis
    by (simp add: finally_release_def js_delete_def example_task_def new_audio_processor_def)
qed

text \<open>
  Claim C5 at two failing inputs. First, the additions to the two sets and the
  registration of the timer (lines 58 to 69) come before the \<^verbatim>\<open>try\<close> statement, and so do
  lines 71 to 88. Where no Opus library is installed, the constructor of the decoder
  throws: the call of \<^verbatim>\<open>setupUserAudioCapture\<close> for user \<^verbatim>\<open>1\<close> ends with the key \<^verbatim>\<open>1-0\<close> in the
  in-flight set and the user in the active-users set. The timer later removes the key;
  nothing removes the user, so every later call for this user returns at the first guard,
  also one in which everything would work. Second, when FFmpeg exits with the code 1
  after it has written a part of its output, the call ends with both sets empty and the
  captured file gone, but the converted file is still there.
\<close>

theorem C5_release_skipped:
  "setupUserAudioCapture no_opus_env example_user 0 0 new_audio_processor =
     new_audio_processor\<lparr>processingQueue := [''1-0''], activeUsers := [''1''], timeouts := [''1-0'']\<rparr>
   \<and> ap_run [SpeakerStart example_user 0 0, TaskEnds example_task no_opus_env,
        TimeoutFires ''1-0''] new_audio_processor =
     new_audio_processor\<lparr>activeUsers := [''1'']\<rparr>
   \<and> setupUserAudioCapture talking_env example_user 20000 20000
        (new_audio_processor\<lparr>activeUsers := [''1'']\<rparr>) =
     new_audio_processor\<lparr>activeUsers := [''1'']\<rparr>
   \<and> processingQueue (setupUserAudioCapture failing_ffmpeg_env example_user 0 0
        new_audio_processor) = []
   \<and> activeUsers (setupUserAudioCapture failing_ffmpeg_env example_user 0 0
        new_audio_processor) = []
   \<and> files (setupUserAudioCapture failing_ffmpeg_env example_user 0 0 new_audio_processor)
        ''./audio_recordings/1-0.pcm'' = None
   \<and> files (setupUserAudioCapture failing_ffmpeg_env example_user 0 0 new_audio_processor)
        ''./audio_recordings/1-0.pcm.converted.pcm'' = Some [0, 0]"
proof -
  let ?s1 = "new_audio_processor\<lparr>processingQueue := [''1-0''], activeUsers := [''1''],
               timeouts := [''1-0'']\<rparr>"
  have t: "processing_timeout ''1-0'' ?s1 = new_audio_processor\<lparr>activeUsers := [''1'']\<rparr>"
    by (simp add: processing_timeout_def js_has_def js_delete_def new_audio_processor_def Let_def)
  have a: "setupUserAudioCapture_admit example_user 20000 20000
        (new_audio_processor\<lparr>activeUsers := [''1'']\<rparr>) =
      (None, new_audio_processor\<lparr>activeUsers := [''1'']\<rparr>)"
    by (simp add: setupUserAudioCapture_admit_def js_has_def example_user_def)
  have c1: "setupUserAudioCapture no_opus_env example_user 0 0 new_audio_processor = ?s1"
    by (simp add: setupUserAudioCapture_def admit_example pipeline_no_opus)
  have c2: "ap_run [SpeakerStart example_user 0 0, TaskEnds example_task no_opus_env,
        TimeoutFires ''1-0''] new_audio_processor = new_audio_processor\<lparr>activeUsers := [''1'']\<rparr>"
    by (simp add: ap_run_def admit_example pipeline_no_opus t)
  have c3: "setupUserAudioCapture talking_env example_user 20000 20000
        (new_audio_processor\<lparr>activeUsers := [''1'']\<rparr>) =
      new_audio_processor\<lparr>activeUsers := [''1'']\<rparr>"
    by (simp add: setupUserAudioCapture_def a)
  have c4: "setupUserAudioCapture failing_ffmpeg_env example_user 0 0 new_audio_processor =
      new_audio_processor\<lparr>files := [converted_name (filename example_task) \<mapsto> [0, 0]],
        energy_log := [Num 32639]\<rparr>"
    by (simp add: setupUserAudioCapture_def admit_example pipeline_failing_ffmpeg)
  show ?thesis
    unfolding c1 c2 c3 c4
    by (simp add: converted_name_def example_task_def new_audio_processor_def)
qed

text \<open>
  Claim C6, as stated, fails. User \<^verbatim>\<open>1\<close> is admitted, the timeout of the task fires and
  empties the in-flight set while the pipeline is still running, and the pipeline then
  finishes with the text \<^verbatim>\<open>touchdown\<close>: \<^verbatim>\<open>onTranscription\<close> is called with it.
\<close>

theorem C6_late_result_counterexample:
  "fst (setupUserAudioCapture_admit example_user 0 0 new_audio_processor) = Some example_task
   \<and> processingQueue (ap_run [SpeakerStart example_user 0 0, TimeoutFires ''1-0'' :: unit ap_event]
        new_audio_processor) = []
   \<and> transcriptions (ap_run [SpeakerStart example_user 0 0, TimeoutFires ''1-0'',
          TaskEnds example_task talking_env] new_audio_processor)
      = [(''1'', ''alice'', ''touchdown'')]"
proof -
  let ?s1 = "new_audio_processor\<lparr>processingQueue := [''1-0''], activeUsers := [''1''], timeouts := [''1-0'']\<rparr>"
  let ?s2 = "new_audio_processor\<lparr>processingQueue := [], activeUsers := [''1''], timeouts := []\<rparr>"
  have t: "processing_timeout ''1-0'' ?s1 = ?s2"
    by (simp add: processing_timeout_def js_has_def js_delete_def Let_def)
  have f: "files ?s2 = Map.empty" by (simp add: new_audio_processor_def)
  have n: "transcriptions new_audio_processor = []" by (simp add: new_audio_processor_def)
  have e: "transcriptions (snd (setupUserAudioCapture_pipeline talking_env example_task ?s2)) =
      [(''1'', ''alice'', ''touchdown'')]"
    using pipeline_talking [OF f] by (simp add: n)
  show ?thesis
    using e by (simp add: ap_run_def admit_example t)
qed

text \<open>
  Claim C6, amended. When the timeout of a task fires while its pipeline is still running,
  it removes the task's key from the in-flight set and leaves the active-users set as it
  is. The late end of the task is a no-op against the in-flight set, whose key is already
  gone. The late result is not discarded: the pipeline leaves the \<^verbatim>\<open>try\<close> block the same
  way and makes the same calls of \<^verbatim>\<open>onTranscription\<close> as without the timeout, so a task that
  ends with a text that is not empty after trimming calls \<^verbatim>\<open>onTranscription\<close> with it.
\<close>

theorem C6_timeout_frees_slot_only:
  assumes "processingKey task \<in> set (timeouts s)"
  shows "processingQueue (processing_timeout (processingKey task) s) =
           js_delete (processingKey task) (processingQueue s)
       \<and> activeUsers (processing_timeout (processingKey task) s) = activeUsers s
       \<and> processingQueue (snd (setupUserAudioCapture_pipeline env task
             (processing_timeout (processingKey task) s))) =
           processingQueue (processing_timeout (processingKey task) s)
       \<and> fst (setupUserAudioCapture_pipeline env task (processing_timeout (processingKey task) s)) =
           fst (setupUserAudioCapture_pipeline env task s)
       \<and> transcriptions (snd (setupUserAudioCapture_pipeline env task
             (processing_timeout (processingKey task) s))) =
           transcriptions (snd (setupUserAudioCapture_pipeline env task s))
       \<and> (\<forall>t. fst (setupUserAudioCapture_pipeline env task (processing_timeout (processingKey task) s)) =
             Completed t \<longrightarrow>
           transcriptions (snd (setupUserAudioCapture_pipeline env task
               (processing_timeout (processingKey task) s))) =
             transcriptions s @
               (if t \<noteq> [] \<and> 0 < length (trim t)
                then [(user_id (task_user task), username (task_user task), t)] else []))"
proof -
  let ?k = "processingKey task"
  let ?st = "processing_timeout ?k s"
  have q: "processingQueue ?st = js_delete ?k (processingQueue s)"
    and a: "activeUsers ?st = activeUsers s"
    using assms by (simp_all add: processing_timeout_eq)
  have noop: "processingQueue (snd (setupUserAudioCapture_pipeline env task ?st)) = processingQueue ?st"
    by (simp add: pipeline_processingQueue q js_delete_def)
  have late: "transcriptions (snd (setupUserAudioCapture_pipeline env task ?st)) =
             transcriptions s @
               (if t \<noteq> [] \<and> 0 < length (trim t)
                then [(user_id (task_user task), username (task_user task), t)] else [])"
    if c: "fst (setupUserAudioCapture_pipeline env task ?st) = Completed t" for t
  proof -
    have o: "open_streams env = None"
    proof (cases "open_streams env")
      case None
      then show ?thesis .
    next
      case (Some e)
      with c show ?thesis by (simp add: pipeline_not_started)
    qed
    have c': "fst (setupUserAudioCapture_try env task s) = Completed t"
      using c pipeline_after_timeout(1) [OF assms, of env] by (simp add: pipeline_fst [OF o])
    then have nt: "\<forall>e. fst (setupUserAudioCapture_try env task s) \<noteq> Thrown e" by simp
    have "transcriptions (snd (setupUserAudioCapture_pipeline env task s)) =
            transcriptions (deliver (task_user task) t s)"
      using try_Completed [OF c'] pipeline_snd_not_thrown [OF o nt]
      by (simp add: finally_release_transcriptions)
    then show ?thesis
      using pipeline_after_timeout(2) [OF assms, of env] by (simp add: deliver_def)
  qed
  show ?thesis
    using q a noop late pipeline_after_timeout(1,2) [OF assms, of env] by blast
qed

theorem C6_timeout_frees_slot_only_witness:
  "processingQueue (processing_timeout ''1-0''
       (new_audio_processor\<lparr>processingQueue := [''1-0''], activeUsers := [''1''], timeouts := [''1-0'']\<rparr>)) = []
   \<and> fst (setupUserAudioCapture_pipeline talking_env example_task
       (processing_timeout ''1-0''
          (new_audio_processor\<lparr>processingQueue := [''1-0''], activeUsers := [''1''], timeouts := [''1-0'']\<rparr>)))
      = fst (setupUserAudioCapture_pipeline talking_env example_task
          (new_audio_processor\<lparr>processingQueue := [''1-0''], activeUsers := [''1''], timeouts := [''1-0'']\<rparr>))"
  using C6_timeout_frees_slot_only
    [of example_task
        "new_audio_processor\<lparr>processingQueue := [''1-0''], activeUsers := [''1''], timeouts := [''1-0'']\<rparr>"
        talking_env]
  by (simp add: example_task_def js_delete_def)

section \<open>Properties of the recognition stage\<close>

lemma recognizeAudio_returns:
  "recognizeAudio backend convertedFile fs =
     Inr (case recognizeAudio_try backend convertedFile fs of Inl e \<Rightarrow> [] | Inr t \<Rightarrow> t)"
  by (simp add: recognizeAudio_def split: sum.split)

lemma recognize_result:
  assumes "existsSync convertedFile fs"
  shows "recognize backend convertedFile fs =
     ((case recognizeAudio_try backend convertedFile fs of Inl e \<Rightarrow> [] | Inr t \<Rightarrow> t),
      fs(convertedFile := None))"
  using assms
  by (auto simp: recognize_def recognizeAudio_returns unlinkSync_def existsSync_def
      split: option.splits)

text \<open>
  What \<^verbatim>\<open>transcribeAudio\<close> does when \<^verbatim>\<open>spawn\<close> and the registrations return: it returns a
  string. When FFmpeg emits \<^verbatim>\<open>'error'\<close> or exits with a code other than 0, the string is
  empty and the recognizer is not called. When the recognizer is called, the converted
  file does not exist afterwards, and the string is empty whenever the \<^verbatim>\<open>try\<close> block of
  \<^verbatim>\<open>recognizeAudio\<close> threw.
\<close>

lemma transcribeAudio_events:
  assumes "\<forall>e. ff \<noteq> SpawnThrows e"
  shows "\<exists>t. fst (transcribeAudio ff backend f fs) = Inr t"
    and "ff = SpawnError \<or> (\<exists>code out. ff = Closed code out \<and> code \<noteq> 0) \<Longrightarrow>
        fst (transcribeAudio ff backend f fs) = Inr [] \<and> \<not> fst (snd (transcribeAudio ff backend f fs))"
    and "fst (snd (transcribeAudio ff backend f fs)) \<Longrightarrow>
        snd (snd (transcribeAudio ff backend f fs)) (converted_name f) = None
        \<and> fst (transcribeAudio ff backend f fs) =
            Inr (case recognizeAudio_try backend (converted_name f) (snd (convertAudio ff f fs)) of
                   Inl e \<Rightarrow> [] | Inr t \<Rightarrow> t)"
proof -
  let ?cf = "converted_name f"
  let ?fs1 = "write_file ?cf (ffmpeg_written ff) fs"
  have all: "(\<exists>t. fst (transcribeAudio ff backend f fs) = Inr t)
     \<and> (ff = SpawnError \<or> (\<exists>code out. ff = Closed code out \<and> code \<noteq> 0) \<longrightarrow>
        fst (transcribeAudio ff backend f fs) = Inr [] \<and> \<not> fst (snd (transcribeAudio ff backend f fs)))
     \<and> (fst (snd (transcribeAudio ff backend f fs)) \<longrightarrow>
        snd (snd (transcribeAudio ff backend f fs)) (converted_name f) = None
        \<and> fst (transcribeAudio ff backend f fs) =
            Inr (case recognizeAudio_try backend (converted_name f) (snd (convertAudio ff f fs)) of
                   Inl e \<Rightarrow> [] | Inr t \<Rightarrow> t))"
  proof (cases ff)
    case (SpawnThrows e)
    with assms show ?thesis by simp
  next
    case SpawnError
    then have "transcribeAudio ff backend f fs = (Inr [], False, ?fs1)"
      by (simp add: transcribeAudio_def convertAudio_def Let_def)
    then show ?thesis by simp
  next
    case (Closed code out)
    show ?thesis
    proof (cases "code = 0 \<and> existsSync ?cf ?fs1")
      case False
      with Closed have "transcribeAudio ff backend f fs = (Inr [], False, ?fs1)"
        by (auto simp: transcribeAudio_def convertAudio_def Let_def)
      then show ?thesis by simp
    next
      case True
      with Closed have "transcribeAudio ff backend f fs =
          (Inr (case recognizeAudio_try backend ?cf ?fs1 of Inl e \<Rightarrow> [] | Inr t \<Rightarrow> t),
           True, ?fs1(?cf := None))"
        by (simp add: transcribeAudio_def convertAudio_def Let_def recognize_result)
      then show ?thesis using True Closed by (simp add: convertAudio_def Let_def)
    qed
  qed
  show "\<exists>t. fst (transcribeAudio ff backend f fs) = Inr t" using all by blast
  show "fst (transcribeAudio ff backend f fs) = Inr [] \<and> \<not> fst (snd (transcribeAudio ff backend f fs))"
    if "ff = SpawnError \<or> (\<exists>code out. ff = Closed code out \<and> code \<noteq> 0)"
    using all that by blast
  show "snd (snd (transcribeAudio ff backend f fs)) (converted_name f) = None
        \<and> fst (transcribeAudio ff backend f fs) =
            Inr (case recognizeAudio_try backend (converted_name f) (snd (convertAudio ff f fs)) of
                   Inl e \<Rightarrow> [] | Inr t \<Rightarrow> t)"
    if "fst (snd (transcribeAudio ff backend f fs))"
    using all that by blast
qed

text \<open>
  The recognizer throws in its constructor, or it throws in \<^verbatim>\<open>finalResult\<close> after the
  chunks have given the text \<^verbatim>\<open>touch\<close>: the result is the empty string, and the converted
  file is gone.
\<close>

lemma transcribe_backend_throws:
  "transcribeAudio (Closed 0 (Some [0, 0])) broken_backend f Map.empty = (Inr [], True, Map.empty)"
  "transcribeAudio (Closed 0 (Some [0, 0])) stalling_backend f Map.empty = (Inr [], True, Map.empty)"
  "recognize_chunks stalling_backend () [0, 0] [] = Inr (''touch '', ())"
  by (simp_all add: transcribeAudio_def convertAudio_def write_file_def existsSync_def
      recognize_def recognizeAudio_def recognizeAudio_try_def broken_backend_def
      stalling_backend_def readFileSync_def recognize_chunks.simps chunkSize_def unlinkSync_def
      Let_def)

text \<open>
  Claim C7 at a failing input. The executor of the promise of \<^verbatim>\<open>convertAudio\<close> calls
  \<^verbatim>\<open>spawn\<close> and \<^verbatim>\<open>ffmpegProcess.stderr.on\<close> outside every \<^verbatim>\<open>try\<close> statement, and the handler
  of \<^verbatim>\<open>'error'\<close>, the one place that turns a spawn failure into \<^verbatim>\<open>null\<close>, is registered only
  after \<^verbatim>\<open>spawn\<close> has returned. When one of the two calls throws a \<^verbatim>\<open>TypeError\<close>, the promise
  of \<^verbatim>\<open>transcribeAudio\<close> is rejected with it instead of being fulfilled with the empty
  string, and the error arrives in the \<^verbatim>\<open>catch\<close> block of \<^verbatim>\<open>setupUserAudioCapture\<close>.
\<close>

theorem C7_spawn_throw_propagates:
  "transcribeAudio (SpawnThrows TypeError) talking_backend ''./audio_recordings/1-0.pcm''
       [''./audio_recordings/1-0.pcm'' \<mapsto> loud_segment] =
     (Inl TypeError, False, [''./audio_recordings/1-0.pcm'' \<mapsto> loud_segment])
   \<and> fst (setupUserAudioCapture_pipeline spawn_throws_env example_task new_audio_processor) =
       Thrown TypeError"
proof -
  have o: "open_streams spawn_throws_env = None"
    and c: "capture spawn_throws_env = Captured loud_segment"
    and ff: "ffmpeg spawn_throws_env = SpawnThrows TypeError"
    by (simp_all add: spawn_throws_env_def talking_env_def)
  have t: "transcribeAudio (SpawnThrows TypeError) backend f fs = (Inl TypeError, False, fs)"
    for backend :: "unit vosk_backend" and f fs
    by (simp add: transcribeAudio_def convertAudio_def write_file_def Let_def)
  have "fst (setupUserAudioCapture_try spawn_throws_env example_task new_audio_processor) =
      Thrown TypeError"
    by (simp add: try_Captured [OF c] ff t segment_lengths audio_energy_loud MIN_AUDIO_BYTES_def
        durationMs_def MIN_AUDIO_DURATION_MS_def MIN_ENERGY_def Let_def)
  then show ?thesis by (simp add: pipeline_fst [OF o] t)
qed

section \<open>Properties of the sports detector\<close>

lemma set_foldl_js_add: "set (foldl (\<lambda>s k. js_add k s) acc ks) = set acc \<union> set ks"
  by (induction ks arbitrary: acc) (auto simp: js_add_def)

lemma default_keywords_supported: "list_all (\<lambda>k. keyword_regex k \<noteq> None) default_keywords"
  by code_simp

lemma new_SportsDetector_supported:
  "\<forall>k \<in> set (sportsKeywords new_SportsDetector). keyword_regex k \<noteq> None"
  using default_keywords_supported
  by (simp add: new_SportsDetector_def set_foldl_js_add list_all_iff)

lemma detect_keywords_supported:
  "\<forall>k \<in> set ks. keyword_regex k \<noteq> None \<Longrightarrow>
   detect_keywords ks lowerText acc =
     Some (acc @ filter (\<lambda>k. regex_test (the (keyword_regex k)) lowerText) ks)"
  by (induction ks arbitrary: acc) auto

lemma detectSports_supported:
  assumes "\<forall>k \<in> set (sportsKeywords d). keyword_regex k \<noteq> None"
  shows "detectSports d s =
     Some \<lparr>detected = (\<exists>k \<in> set (sportsKeywords d). regex_test (the (keyword_regex k)) (toLowerCase s)),
           keywords = filter (\<lambda>k. regex_test (the (keyword_regex k)) (toLowerCase s)) (sportsKeywords d)\<rparr>"
  using detect_keywords_supported [OF assms, of "toLowerCase s" "[]"]
  by (auto simp: detectSports_def filter_empty_conv)

text \<open>
  Claim C9 at a failing input. After \<^verbatim>\<open>addKeyword('D.C. United')\<close> on a new detector the
  configured terms include \<^verbatim>\<open>d.c. united\<close>. \<^verbatim>\<open>detectSports('Dice United')\<close> then reports a
  detection and returns \<^verbatim>\<open>d.c. united\<close> among the keywords, although that term does not
  occur in the text: the dots of the term are read as pattern operators.
\<close>

theorem C9_keyword_read_as_pattern:
  "\<exists>r. detectSports (addKeyword ''D.C. United'' new_SportsDetector) ''Dice United'' = Some r
       \<and> detected r \<and> ''d.c. united'' \<in> set (keywords r)
       \<and> ''d.c. united'' \<in> set (getKeywords (addKeyword ''D.C. United'' new_SportsDetector))
       \<and> \<not> occurs_as_whole_word ''d.c. united'' ''Dice United''"
proof -
  let ?d = "addKeyword ''D.C. United'' new_SportsDetector"
  have low: "toLowerCase ''D.C. United'' = ''d.c. united''" by code_simp
  have mem: "''d.c. united'' \<in> set (sportsKeywords ?d)"
    by (simp add: addKeyword_def low js_add_def)
  have sup: "\<forall>k \<in> set (sportsKeywords ?d). keyword_regex k \<noteq> None"
  proof -
    have "keyword_regex ''d.c. united'' \<noteq> None" by code_simp
    then show ?thesis
      using new_SportsDetector_supported by (auto simp: addKeyword_def low js_add_def)
  qed
  have hit: "regex_test (the (keyword_regex ''d.c. united'')) (toLowerCase ''Dice United'')"
    by code_simp
  have miss: "\<not> occurs_as_whole_word ''d.c. united'' ''Dice United''" by code_simp
  show ?thesis
    using mem hit miss by (auto simp: detectSports_supported [OF sup] getKeywords_def)
qed

lemma map_of_zip_swap:
  assumes "length xs = length ys" and "distinct xs" and "distinct ys"
  shows "map_of (zip xs ys) a = Some b \<longleftrightarrow> map_of (zip ys xs) b = Some a"
  using assms
proof (induction xs ys rule: list_induct2)
  case Nil
  then show ?case by simp
next
  case (Cons x xs y ys)
  have "map_of (zip xs ys) a = Some y \<Longrightarrow> False"
    using Cons.prems(2) by (auto dest!: map_of_SomeD set_zip_rightD)
  moreover have "map_of (zip ys xs) b = Some x \<Longrightarrow> False"
    using Cons.prems(1) by (auto dest!: map_of_SomeD set_zip_rightD)
  ultimately show ?case using Cons by auto
qed

lemma letters_facts:
  "length upper_letters = length lower_letters"
  "distinct upper_letters" "distinct lower_letters"
  "set upper_letters \<inter> set lower_letters = {}"
  by (simp_all add: upper_letters_def lower_letters_def)

lemma lower_char_cases:
  "(c \<notin> set upper_letters \<and> lower_char c = c)
   \<or> (c \<in> set upper_letters \<and> lower_char c \<in> set lower_letters
      \<and> map_of (zip upper_letters lower_letters) c = Some (lower_char c))"
proof (cases "map_of (zip upper_letters lower_letters) c")
  case None
  then have "c \<notin> set upper_letters"
    using letters_facts(1) by (simp add: map_of_zip_is_None)
  with None show ?thesis by (simp add: lower_char_def)
next
  case (Some d)
  then have "(c, d) \<in> set (zip upper_letters lower_letters)" by (rule map_of_SomeD)
  then have "c \<in> set upper_letters" "d \<in> set lower_letters"
    by (auto dest: set_zip_leftD set_zip_rightD)
  with Some show ?thesis by (simp add: lower_char_def)
qed

lemma upper_char_cases:
  "(c \<notin> set lower_letters \<and> upper_char c = c)
   \<or> (c \<in> set lower_letters \<and> upper_char c \<in> set upper_letters
      \<and> map_of (zip lower_letters upper_letters) c = Some (upper_char c))"
proof (cases "map_of (zip lower_letters upper_letters) c")
  case None
  then have "c \<notin> set lower_letters"
    using letters_facts(1) by (simp add: map_of_zip_is_None)
  with None show ?thesis by (simp add: upper_char_def)
next
  case (Some d)
  then have "(c, d) \<in> set (zip lower_letters upper_letters)" by (rule map_of_SomeD)
  then have "c \<in> set lower_letters" "d \<in> set upper_letters"
    by (auto dest: set_zip_leftD set_zip_rightD)
  with Some show ?thesis by (simp add: upper_char_def)
qed

lemma upper_lower_char: "upper_char (lower_char c) = upper_char c"
proof -
  from lower_char_cases [of c] show ?thesis
  proof
    assume "c \<notin> set upper_letters \<and> lower_char c = c"
    then show ?thesis by simp
  next
    assume a: "c \<in> set upper_letters \<and> lower_char c \<in> set lower_letters
      \<and> map_of (zip upper_letters lower_letters) c = Some (lower_char c)"
    then have "map_of (zip lower_letters upper_letters) (lower_char c) = Some c"
      using map_of_zip_swap [OF letters_facts(1,2,3), of c "lower_char c"] by simp
    then have l: "upper_char (lower_char c) = c" by (simp add: upper_char_def)
    have "c \<notin> set lower_letters" using a letters_facts(4) by auto
    then have "upper_char c = c" using upper_char_cases [of c] by simp
    with l show ?thesis by simp
  qed
qed

lemma lower_upper_char: "lower_char (upper_char c) = lower_char c"
proof -
  from upper_char_cases [of c] show ?thesis
  proof
    assume "c \<notin> set lower_letters \<and> upper_char c = c"
    then show ?thesis by simp
  next
    assume a: "c \<in> set lower_letters \<and> upper_char c \<in> set upper_letters
      \<and> map_of (zip lower_letters upper_letters) c = Some (upper_char c)"
    then have "map_of (zip upper_letters lower_letters) (upper_char c) = Some c"
      using map_of_zip_swap [OF letters_facts(1,2,3), of "upper_char c" c] by simp
    then have l: "lower_char (upper_char c) = c" by (simp add: lower_char_def)
    have "c \<notin> set upper_letters" using a letters_facts(4) by auto
    then have "lower_char c = c" using lower_char_cases [of c] by simp
    with l show ?thesis by simp
  qed
qed

lemma same_letter_iff: "upper_char c = upper_char d \<longleftrightarrow> lower_char c = lower_char d"
  by (metis upper_lower_char lower_upper_char)

lemma is_word_lower_char: "is_word_char (lower_char c) = is_word_char c"
  using lower_char_cases [of c] by (auto simp: is_word_char_def)

lemma map_upper_eq_iff: "map upper_char xs = map upper_char ys \<longleftrightarrow> toLowerCase xs = toLowerCase ys"
proof (induction xs arbitrary: ys)
  case Nil
  then show ?case by (simp add: toLowerCase_def)
next
  case (Cons x xs)
  then show ?case by (cases ys) (auto simp: toLowerCase_def same_letter_iff)
qed

lemma keyword_regex_plain:
  "plain_term k \<Longrightarrow> keyword_regex k = Some (WordBoundary # map Literal k @ [WordBoundary])"
proof -
  assume p: "plain_term k"
  then have "map atom_of_char k = map Literal k"
    by (auto simp: plain_term_def atom_of_char_def)
  moreover have "\<not> list_ex (\<lambda>c. c \<in> set other_syntax_chars) k"
    using p by (auto simp: plain_term_def list_ex_iff)
  ultimately show ?thesis by (simp add: keyword_regex_def)
qed

lemma match_here_literals:
  "match_here (map Literal k @ atoms) prev s \<longleftrightarrow>
     length k \<le> length s \<and> map upper_char (take (length k) s) = map upper_char k
     \<and> match_here atoms (if k = [] then prev else Some (s ! (length k - 1))) (drop (length k) s)"
proof (induction k arbitrary: prev s)
  case Nil
  then show ?case by simp
next
  case (Cons c k)
  show ?case
  proof (cases s)
    case Nil
    then show ?thesis by simp
  next
    case (Cons d s')
    have "(if k = [] then Some d else Some (s' ! (length k - 1))) = Some ((d # s') ! length k)"
      by (cases k) simp_all
    then show ?thesis
      using Cons.IH [of "Some d" s'] Cons by (auto simp: eq_commute [of "upper_char d"])
  qed
qed

lemma match_from_iff:
  "match_from atoms prev s \<longleftrightarrow>
     (\<exists>i \<le> length s. match_here atoms (if i = 0 then prev else Some (s ! (i - 1))) (drop i s))"
proof (induction s arbitrary: prev)
  case Nil
  then show ?case by simp
next
  case (Cons d s)
  have "(\<exists>i \<le> length (d # s). match_here atoms (if i = 0 then prev else Some ((d # s) ! (i - 1))) (drop i (d # s)))
      \<longleftrightarrow> match_here atoms prev (d # s)
          \<or> (\<exists>j \<le> length s. match_here atoms (Some ((d # s) ! j)) (drop j s))"
    (is "?L \<longleftrightarrow> ?A \<or> ?B")
  proof
    assume ?L
    then obtain i where i: "i \<le> length (d # s)"
      "match_here atoms (if i = 0 then prev else Some ((d # s) ! (i - 1))) (drop i (d # s))"
      by blast
    show "?A \<or> ?B"
    proof (cases i)
      case 0
      with i show ?thesis by simp
    next
      case (Suc j)
      with i have "j \<le> length s" "match_here atoms (Some ((d # s) ! j)) (drop j s)" by simp_all
      then show ?thesis by blast
    qed
  next
    assume "?A \<or> ?B"
    then show ?L
    proof
      assume ?A
      then show ?L by (intro exI [of _ 0]) simp
    next
      assume ?B
      then obtain j where "j \<le> length s" "match_here atoms (Some ((d # s) ! j)) (drop j s)"
        by blast
      then show ?L by (intro exI [of _ "Suc j"]) simp
    qed
  qed
  moreover have "(\<exists>j \<le> length s. match_here atoms (Some ((d # s) ! j)) (drop j s)) \<longleftrightarrow>
      (\<exists>j \<le> length s. match_here atoms (if j = 0 then Some d else Some (s ! (j - 1))) (drop j s))"
    by (rule ex_cong1) (auto simp: nth_Cons split: nat.splits)
  ultimately show ?case using Cons.IH [of "Some d"] by simp
qed

lemma prev_is_char_before:
  "i \<le> length s \<Longrightarrow> (if i = 0 then None else Some (s ! (i - 1))) = char_before s i"
  by (simp add: char_before_def)

lemma first_char_drop: "first_char (drop i s) = char_at s i"
proof (cases "i < length s")
  case True
  then have "drop i s = s ! i # drop (Suc i) s" by (simp add: Cons_nth_drop_Suc)
  with True show ?thesis by (simp add: char_at_def)
next
  case False
  then show ?thesis by (simp add: char_at_def)
qed

lemma after_literals:
  assumes "i + length k \<le> length s"
  shows "(if k = [] then char_before s i else Some (drop i s ! (length k - 1))) =
           char_before s (i + length k)"
proof (cases k)
  case Nil
  then show ?thesis by simp
next
  case (Cons c k')
  then show ?thesis using assms by (simp add: char_before_def)
qed

lemma regex_test_plain:
  "regex_test (WordBoundary # map Literal k @ [WordBoundary]) s \<longleftrightarrow> occurs_as_whole_word k s"
proof -
  have step: "match_here (WordBoundary # map Literal k @ [WordBoundary]) (char_before s i) (drop i s)
      \<longleftrightarrow> occurs_at k s i" if "i \<le> length s" for i
  proof (cases "i + length k \<le> length s")
    case False
    then show ?thesis using that by (auto simp: match_here_literals occurs_at_def)
  next
    case True
    then have "length k \<le> length s - i" by simp
    then show ?thesis
      using True after_literals [OF True]
      by (auto simp: match_here_literals occurs_at_def word_boundary_def first_char_drop
          map_upper_eq_iff add.commute)
  qed
  have "regex_test (WordBoundary # map Literal k @ [WordBoundary]) s \<longleftrightarrow>
      (\<exists>i \<le> length s. match_here (WordBoundary # map Literal k @ [WordBoundary])
          (char_before s i) (drop i s))"
  proof -
    have "match_here (WordBoundary # map Literal k @ [WordBoundary])
            (if i = 0 then None else Some (s ! (i - 1))) (drop i s) =
          match_here (WordBoundary # map Literal k @ [WordBoundary]) (char_before s i) (drop i s)"
      if "i \<le> length s" for i
      using that by (simp only: prev_is_char_before)
    then show ?thesis
      unfolding regex_test_def match_from_iff by blast
  qed
  also have "\<dots> \<longleftrightarrow> (\<exists>i \<le> length s. occurs_at k s i)"
    using step by blast
  also have "\<dots> \<longleftrightarrow> occurs_as_whole_word k s"
    unfolding occurs_as_whole_word_def list_ex_iff
    by (simp del: upt_Suc add: less_Suc_eq_le Bex_def)
  finally show ?thesis .
qed

lemma lower_char_idem: "lower_char (lower_char c) = lower_char c"
  by (metis lower_upper_char upper_lower_char)

lemma char_before_map: "char_before (map f s) i = map_option f (char_before s i)"
  by (auto simp: char_before_def)

lemma char_at_map: "char_at (map f s) i = map_option f (char_at s i)"
  by (simp add: char_at_def)

lemma is_word_at_lower: "is_word_at (map_option lower_char x) = is_word_at x"
  by (cases x) (simp_all add: is_word_lower_char)

lemma occurs_toLowerCase: "occurs_as_whole_word k (toLowerCase s) \<longleftrightarrow> occurs_as_whole_word k s"
proof -
  have "occurs_at k (toLowerCase s) i \<longleftrightarrow> occurs_at k s i" for i
    by (simp add: occurs_at_def toLowerCase_def word_boundary_def char_before_map char_at_map
        is_word_at_lower take_map drop_map lower_char_idem comp_def)
  moreover have "length (toLowerCase s) = length s" by (simp add: toLowerCase_def)
  ultimately show ?thesis by (simp del: upt_Suc add: occurs_as_whole_word_def list_ex_iff)
qed

text \<open>
  For a detector whose terms hold no syntax character of the pattern language,
  \<^verbatim>\<open>detectSports\<close> is whole-word matching as the specification states it: it reports a
  detection exactly when some configured term occurs in the text as a whole word, up to
  the case of letters, and it returns exactly the configured terms that so occur, in the
  order of the set. The default terms are of that kind.
\<close>

lemma detectSports_plain_terms:
  assumes "\<forall>k \<in> set (sportsKeywords d). plain_term k"
  shows "detectSports d s =
     Some \<lparr>detected = (\<exists>k \<in> set (sportsKeywords d). occurs_as_whole_word k s),
           keywords = filter (\<lambda>k. occurs_as_whole_word k s) (sportsKeywords d)\<rparr>"
proof -
  have sup: "\<forall>k \<in> set (sportsKeywords d). keyword_regex k \<noteq> None"
    using assms by (simp add: keyword_regex_plain)
  have t: "regex_test (the (keyword_regex k)) (toLowerCase s) \<longleftrightarrow> occurs_as_whole_word k s"
    if "k \<in> set (sportsKeywords d)" for k
    using that assms by (simp add: keyword_regex_plain regex_test_plain occurs_toLowerCase)
  have "filter (\<lambda>k. regex_test (the (keyword_regex k)) (toLowerCase s)) (sportsKeywords d) =
      filter (\<lambda>k. occurs_as_whole_word k s) (sportsKeywords d)"
    by (rule filter_cong) (simp_all add: t)
  moreover have "(\<exists>k \<in> set (sportsKeywords d). regex_test (the (keyword_regex k)) (toLowerCase s))
      \<longleftrightarrow> (\<exists>k \<in> set (sportsKeywords d). occurs_as_whole_word k s)"
    using t by blast
  ultimately show ?thesis by (simp add: detectSports_supported [OF sup])
qed

lemma mutation_api:
  "set (getKeywords (addKeyword k d)) = insert (toLowerCase k) (set (getKeywords d))"
  "set (getKeywords (removeKeyword k d)) = set (getKeywords d) - {toLowerCase k}"
  by (auto simp: getKeywords_def addKeyword_def removeKeyword_def js_add_def js_delete_def)

lemma default_keywords_plain: "list_all plain_term default_keywords"
  by code_simp

lemma detectSports_default:
  "detectSports new_SportsDetector s =
     Some \<lparr>detected = (\<exists>k \<in> set default_keywords. occurs_as_whole_word k s),
           keywords = filter (\<lambda>k. occurs_as_whole_word k s) (sportsKeywords new_SportsDetector)\<rparr>"
proof -
  have s: "set (sportsKeywords new_SportsDetector) = set default_keywords"
    by (simp add: new_SportsDetector_def set_foldl_js_add)
  have "\<forall>k \<in> set (sportsKeywords new_SportsDetector). plain_term k"
    using default_keywords_plain unfolding s by (simp add: list_all_iff)
  then show ?thesis using s by (simp add: detectSports_plain_terms)
qed

section \<open>Properties of the bot\<close>

lemma monitorUser_inv: "monitor_inv b \<Longrightarrow> monitor_inv (monitorUser c m b)"
  by (auto simp: monitor_inv_def monitorUser_def js_has_def js_add_def Let_def)

lemma fold_monitorUser_inv: "monitor_inv b \<Longrightarrow> monitor_inv (fold (monitorUser c) ms b)"
  by (induction ms arbitrary: b) (simp_all add: monitorUser_inv)

lemma monitor_inv_cong:
  "listeners b' = listeners b \<Longrightarrow> monitoredUsers b' = monitoredUsers b \<Longrightarrow>
   monitor_inv b \<Longrightarrow> monitor_inv b'"
  by (simp add: monitor_inv_def)

lemma handleBotJoinedChannel_inv:
  "monitor_inv b \<Longrightarrow> monitor_inv (handleBotJoinedChannel guild joined b)"
proof (cases joined)
  case None
  assume "monitor_inv b"
  with None show ?thesis by (simp add: handleBotJoinedChannel_def)
next
  case (Some cm)
  assume i: "monitor_inv b"
  obtain c ms where cm: "cm = (c, ms)" by (cases cm)
  have "monitor_inv (b\<lparr>activeConnections := (activeConnections b)(guild \<mapsto> c)\<rparr>)"
    using i by (simp add: monitor_inv_def)
  then show ?thesis
    using Some cm by (simp add: handleBotJoinedChannel_def fold_monitorUser_inv)
qed

lemma messageCreate_inv:
  "monitor_inv b \<Longrightarrow> monitor_inv (messageCreate author_bot content guild in_voice joined b)"
proof -
  assume i: "monitor_inv b"
  have upd: "monitor_inv (b1\<lparr>activeConnections := x\<rparr>)" if "monitor_inv b1" for b1 x
    using that by (simp add: monitor_inv_def)
  show ?thesis
    using i handleBotJoinedChannel_inv [OF i, of guild joined]
    by (auto simp: messageCreate_def Let_def upd split: option.split)
qed

lemma kickUser_mon:
  "listeners (kickUser m kws now iv d b) = listeners b"
  "monitoredUsers (kickUser m kws now iv d b) = monitoredUsers b"
  by (simp_all add: kickUser_def Let_def)

lemma handleTranscription_mon:
  "listeners (handleTranscription m t now iv d b) = listeners b"
  "monitoredUsers (handleTranscription m t now iv d b) = monitoredUsers b"
  by (simp_all add: handleTranscription_def kickUser_mon split: option.split)

lemma fold_handleTranscription_mon:
  "listeners (fold (\<lambda>d b2. handleTranscription m (snd (snd d)) now iv dc b2) ds b) = listeners b"
  "monitoredUsers (fold (\<lambda>d b2. handleTranscription m (snd (snd d)) now iv dc b2) ds b) = monitoredUsers b"
  by (induction ds arbitrary: b) (simp_all add: handleTranscription_mon)

lemma capture_ends_mon:
  "listeners (capture_ends task env now iv d b) = listeners b"
  "monitoredUsers (capture_ends task env now iv d b) = monitoredUsers b"
  by (simp_all add: capture_ends_def Let_def fold_handleTranscription_mon split: option.split)

lemma speaking_listener_mon:
  "listeners (speaking_listener m u now now' b) = listeners b"
  "monitoredUsers (speaking_listener m u now now' b) = monitoredUsers b"
  by (simp_all add: speaking_listener_def split: prod.split option.split)

lemma fold_speaking_mon:
  "listeners (fold (\<lambda>l b1. if fst l = c then speaking_listener (snd l) u now now' b1 else b1) ls b)
     = listeners b"
  "monitoredUsers (fold (\<lambda>l b1. if fst l = c then speaking_listener (snd l) u now now' b1 else b1) ls b)
     = monitoredUsers b"
  by (induction ls arbitrary: b) (simp_all add: speaking_listener_mon)

lemma speaking_start_mon:
  "listeners (speaking_start c u now now' b) = listeners b"
  "monitoredUsers (speaking_start c u now now' b) = monitoredUsers b"
  by (simp_all add: speaking_start_def fold_speaking_mon)

lemma cooldown_timer_inv: "monitor_inv b \<Longrightarrow> monitor_inv (cooldown_timer m iv b)"
proof -
  assume i: "monitor_inv b"
  let ?b1 = "b\<lparr>cooldownTimers := remove1 m (cooldownTimers b),
                userCooldowns := (userCooldowns b)(user_id (member_user m) := None)\<rparr>"
  have i1: "monitor_inv ?b1" using i by (simp add: monitor_inv_def)
  show ?thesis
    using i i1 monitorUser_inv [OF i1]
    by (simp add: cooldown_timer_def Let_def split: option.split)
qed

lemma handleVoiceStateUpdate_inv:
  assumes i: "monitor_inv b"
  shows "monitor_inv (handleVoiceStateUpdate botId v now joined b)"
proof -
  have upd: "monitor_inv (b1\<lparr>activeConnections := x\<rparr>)"
    "monitor_inv (b1\<lparr>userWarnings := y\<rparr>)" "monitor_inv (b1\<lparr>userCooldowns := z\<rparr>)"
    "monitor_inv (b1\<lparr>cooldownTimers := w\<rparr>)"
    if "monitor_inv b1" for b1 x y z w
    using that by (simp_all add: monitor_inv_def)
  define m where "m = vs_member v"
  define userId where "userId = user_id (member_user m)"
  define guild where "guild = guild_id m"
  define joins where "joins = (old_channel v = None \<and> new_channel v \<noteq> None)"
  define leaves where "leaves = (old_channel v \<noteq> None \<and> new_channel v = None)"
  define b0 where "b0 = (if userId \<noteq> [] \<and> userCooldowns b userId \<noteq> None
                                   then b\<lparr>userCooldowns := (userCooldowns b)(userId := None)\<rparr>
                                   else b)"
  define b1 where "b1 = (if joins then
                        (case activeConnections b0 guild of
                              Some connection \<Rightarrow>
                                if Some userId \<noteq> botId then monitorUser connection m b0 else b0
                            | None \<Rightarrow> b0)
                      else b)"
  define b2 where "b2 = (if leaves \<and> userId \<noteq> []
                      then b1\<lparr>userWarnings := (userWarnings b1)(userId := None)\<rparr>
                      else b1)"
  define b3 where "b3 = (if Some userId = botId \<and> joins \<and> activeConnections b2 guild = None
                      then handleBotJoinedChannel guild joined b2
                      else b2)"
  have eq: "handleVoiceStateUpdate botId v now joined b =
      (if joins \<and> on_cooldown b userId now
         then b\<lparr>cooldownTimers := cooldownTimers b @ [m]\<rparr>
         else if Some userId = botId \<and> leaves
               then b3\<lparr>activeConnections := (activeConnections b3)(guild := None)\<rparr>
               else b3)"
    unfolding handleVoiceStateUpdate_def Let_def b3_def b2_def b1_def b0_def
      leaves_def joins_def guild_def userId_def m_def
    by (rule refl)
  have i0: "monitor_inv b0" using i by (simp add: b0_def upd)
  have i1: "monitor_inv b1"
    using i i0 monitorUser_inv [OF i0] by (simp add: b1_def split: option.split)
  have i2: "monitor_inv b2" using i1 by (simp add: b2_def upd)
  have i3: "monitor_inv b3" using i2 handleBotJoinedChannel_inv [OF i2] by (simp add: b3_def)
  show ?thesis unfolding eq using i i3 by (simp add: upd)
qed

lemma bot_step_inv: "monitor_inv b \<Longrightarrow> monitor_inv (bot_step ev b)"
proof (cases ev)
  case (ProcessingTimeout key)
  assume "monitor_inv b"
  then show ?thesis using ProcessingTimeout by (simp add: monitor_inv_def)
next
  case (ConnectionLost g)
  assume "monitor_inv b"
  then show ?thesis using ConnectionLost by (simp add: monitor_inv_def connection_lost_def)
next
  case (SpeakingStarts c u now now')
  assume "monitor_inv b"
  then show ?thesis using SpeakingStarts
    by (simp add: monitor_inv_cong [OF speaking_start_mon])
next
  case (CaptureEnds task env now iv d)
  assume "monitor_inv b"
  then show ?thesis using CaptureEnds
    by (simp add: monitor_inv_cong [OF capture_ends_mon])
qed (simp_all add: messageCreate_inv handleVoiceStateUpdate_inv cooldown_timer_inv)

lemma bot_run_inv: "monitor_inv b \<Longrightarrow> monitor_inv (bot_run evs b)"
  unfolding bot_run_def by (induction evs arbitrary: b) (simp_all add: bot_step_inv)

lemma monitor_inv_new: "monitor_inv new_bot"
  by (simp add: monitor_inv_def new_bot_def)

lemma distinct_map_filter_le1:
  "distinct (map f xs) \<Longrightarrow> length (filter (\<lambda>x. f x = k) xs) \<le> 1"
  by (induction xs) (auto simp: filter_empty_conv image_iff)

lemma filter_length_le:
  assumes "\<forall>l \<in> set ls. A l \<longrightarrow> B l"
  shows "length (filter A ls) \<le> length (filter B ls)"
  using assms by (induction ls) auto

lemma listeners_for_le1:
  assumes "monitor_inv b"
  shows "listeners_for g u b \<le> 1"
proof -
  let ?k = "g @ ''-'' @ u"
  have "listeners_for g u b \<le> length (filter (\<lambda>l. user_key (snd l) = ?k) (listeners b))"
    unfolding listeners_for_def
    by (rule filter_length_le) (simp add: user_key_def)
  also have "\<dots> \<le> 1"
    using assms distinct_map_filter_le1 [of "\<lambda>l. user_key (snd l)" "listeners b" ?k]
    by (simp add: monitor_inv_def)
  finally show ?thesis .
qed

lemma monitorUser_idem: "monitorUser c' m (monitorUser c m b) = monitorUser c m b"
  by (simp add: monitorUser_def js_has_def js_add_def Let_def)

lemma admit_active_rejected:
  "js_has (user_id u) (activeUsers s) \<Longrightarrow> setupUserAudioCapture_admit u now now' s = (None, s)"
  by (simp add: setupUserAudioCapture_admit_def)

lemma admit_some_active:
  "setupUserAudioCapture_admit u now now' s = (Some task, s1) \<Longrightarrow> js_has (user_id u) (activeUsers s1)"
  by (auto simp: setupUserAudioCapture_admit_def js_has_def js_add_def Let_def split: if_splits)

lemma speaking_listener_active:
  assumes "js_has u (activeUsers (audioProcessor b))"
  shows "captures (speaking_listener m u now now' b) = captures b
       \<and> js_has u (activeUsers (audioProcessor (speaking_listener m u now now' b)))"
proof (cases "u = user_id (member_user m)")
  case True
  then have "setupUserAudioCapture_admit (member_user m) now now' (audioProcessor b) =
      (None, audioProcessor b)"
    using assms by (simp add: admit_active_rejected)
  with True assms show ?thesis by (simp add: speaking_listener_def)
next
  case False
  with assms show ?thesis by (simp add: speaking_listener_def)
qed

lemma fold_speaking_active:
  "js_has u (activeUsers (audioProcessor b)) \<Longrightarrow>
   captures (fold (\<lambda>l b1. if fst l = c then speaking_listener (snd l) u now now' b1 else b1) ls b)
     = captures b"
  by (induction ls arbitrary: b) (simp_all add: speaking_listener_active)

lemma speaking_listener_cases:
  "(captures (speaking_listener m u now now' b) = captures b)
   \<or> (length (captures (speaking_listener m u now now' b)) = Suc (length (captures b))
      \<and> js_has u (activeUsers (audioProcessor (speaking_listener m u now now' b))))"
proof (cases "u = user_id (member_user m)")
  case False
  then show ?thesis by (simp add: speaking_listener_def)
next
  case True
  obtain r s1 where a: "setupUserAudioCapture_admit (member_user m) now now' (audioProcessor b) = (r, s1)"
    by (cases "setupUserAudioCapture_admit (member_user m) now now' (audioProcessor b)")
  show ?thesis
  proof (cases r)
    case None
    with a True show ?thesis by (simp add: speaking_listener_def)
  next
    case (Some task)
    with a True admit_some_active [of "member_user m" now now' "audioProcessor b" task s1]
    show ?thesis by (simp add: speaking_listener_def)
  qed
qed

lemma fold_speaking_at_most_one:
  "length (captures (fold (\<lambda>l b1. if fst l = c then speaking_listener (snd l) u now now' b1 else b1) ls b))
     \<le> Suc (length (captures b))"
proof (induction ls arbitrary: b)
  case Nil
  then show ?case by simp
next
  case (Cons l ls)
  let ?f = "\<lambda>l b1. if fst l = c then speaking_listener (snd l) u now now' b1 else b1"
  show ?case
  proof (cases "fst l = c")
    case False
    then show ?thesis using Cons.IH [of b] by simp
  next
    case True
    let ?b1 = "speaking_listener (snd l) u now now' b"
    from speaking_listener_cases [of "snd l" u now now' b]
    show ?thesis
    proof
      assume "captures ?b1 = captures b"
      then show ?thesis using True Cons.IH [of ?b1] by simp
    next
      assume n: "length (captures ?b1) = Suc (length (captures b))
          \<and> js_has u (activeUsers (audioProcessor ?b1))"
      then have "captures (fold ?f ls ?b1) = captures ?b1"
        using fold_speaking_active [of u ?b1 c now now' ls] by simp
      with n True show ?thesis by simp
    qed
  qed
qed

lemma speaking_start_at_most_one:
  "length (captures (speaking_start c u now now' b)) \<le> Suc (length (captures b))"
  unfolding speaking_start_def by (rule fold_speaking_at_most_one)

text \<open>
  Claim C8. Calling \<^verbatim>\<open>monitorUser\<close> again for a member who is monitored changes nothing,
  whatever the connection. In every state the bot reaches, at most one listener holds a
  given member of a given guild, and the monitored set holds each key once. One
  speaker-start event creates at most one capture task, and \<^verbatim>\<open>setupUserAudioCapture\<close>
  rejects a user who is in the active-users set, changing nothing.
\<close>

theorem C8_subscribe_idempotent:
  "monitorUser c' m (monitorUser c m b) = monitorUser c m b
   \<and> listeners_for g u (bot_run evs new_bot) \<le> 1
   \<and> distinct (monitoredUsers (bot_run evs new_bot))
   \<and> length (captures (speaking_start c u now now' b)) \<le> Suc (length (captures b))
   \<and> (js_has (user_id usr) (activeUsers s) \<longrightarrow>
        setupUserAudioCapture_admit usr now now' s = (None, s))"
proof -
  have i: "monitor_inv (bot_run evs new_bot)"
    by (rule bot_run_inv) (rule monitor_inv_new)
  then have "distinct (monitoredUsers (bot_run evs new_bot))" by (simp add: monitor_inv_def)
  then show ?thesis
    using listeners_for_le1 [OF i, of g u] speaking_start_at_most_one [of c u now now' b]
    by (simp add: monitorUser_idem admit_active_rejected)
qed

theorem C8_subscribe_idempotent_witness:
  "listeners (monitorUser 2 alice (monitorUser 1 alice new_bot)) = [(1, alice)]
   \<and> monitoredUsers (monitorUser 2 alice (monitorUser 1 alice new_bot)) = [''7-1'']
   \<and> setupUserAudioCapture_admit example_user 5 5
        (new_audio_processor\<lparr>processingQueue := [''1-0''], activeUsers := [''1''], timeouts := [''1-0'']\<rparr>)
      = (None, new_audio_processor\<lparr>processingQueue := [''1-0''], activeUsers := [''1''], timeouts := [''1-0'']\<rparr>)"
  using C8_subscribe_idempotent
    [of 2 alice 1 new_bot "''7''" "''1''" "[] :: unit bot_event list" 5 5 example_user
        "new_audio_processor\<lparr>processingQueue := [''1-0''], activeUsers := [''1''], timeouts := [''1-0'']\<rparr>"]
  by (simp add: monitorUser_def new_bot_def alice_def example_user_def user_key_def js_has_def
      js_add_def Let_def)

lemma touchdown_configured: "''touchdown'' \<in> set (sportsKeywords new_SportsDetector)"
proof -
  have "''touchdown'' \<in> set default_keywords" by (simp add: default_keywords_def)
  then show ?thesis by (simp add: new_SportsDetector_def set_foldl_js_add)
qed

lemma kick_touchdown:
  assumes "sportsDetector b = new_SportsDetector"
  shows "handleTranscription m ''touchdown'' now True True b =
     b\<lparr>userCooldowns := (userCooldowns b)(user_id (member_user m) \<mapsto> now + COOLDOWN_MS),
       userWarnings := (userWarnings b)(user_id (member_user m) := None)\<rparr>"
proof -
  have hit: "regex_test (the (keyword_regex ''touchdown'')) (toLowerCase ''touchdown'')"
    by code_simp
  have "\<exists>k \<in> set (sportsKeywords new_SportsDetector).
          regex_test (the (keyword_regex k)) (toLowerCase ''touchdown'')"
    using touchdown_configured hit by blast
  then show ?thesis
    using assms
    by (simp add: handleTranscription_def detectSports_supported [OF new_SportsDetector_supported]
        kickUser_def Let_def)
qed

lemma scenario_join:
  "messageCreate False ''!join'' ''7'' True (Some (4, [alice])) new_bot =
     new_bot\<lparr>activeConnections := [''7'' \<mapsto> 4], monitoredUsers := [''7-1''],
             listeners := [(4, alice)]\<rparr>"
  by (simp add: messageCreate_def handleBotJoinedChannel_def monitorUser_def new_bot_def
      alice_def example_user_def user_key_def js_has_def js_add_def Let_def)

lemma scenario_speak:
  "speaking_start 4 ''1'' 0 0
     (new_bot\<lparr>activeConnections := [''7'' \<mapsto> 4], monitoredUsers := [''7-1''],
             listeners := [(4, alice)]\<rparr>) =
   new_bot\<lparr>activeConnections := [''7'' \<mapsto> 4], monitoredUsers := [''7-1''],
           listeners := [(4, alice)],
           audioProcessor := new_audio_processor\<lparr>processingQueue := [''1-0''],
              activeUsers := [''1''], timeouts := [''1-0'']\<rparr>,
           captures := [(example_task, alice)]\<rparr>"
proof -
  have u: "member_user alice = example_user" "user_id example_user = ''1''"
    by (simp_all add: alice_def example_user_def)
  have a: "audioProcessor new_bot = new_audio_processor" "captures new_bot = []"
    by (simp_all add: new_bot_def)
  show ?thesis
    by (simp add: speaking_start_def speaking_listener_def u a admit_example)
qed

lemma scenario_capture_ends:
  assumes "captures b = [(example_task, alice)]"
    and "audioProcessor b = new_audio_processor\<lparr>processingQueue := [''1-0''],
              activeUsers := [''1''], timeouts := [''1-0'']\<rparr>"
    and "sportsDetector b = new_SportsDetector"
  shows "capture_ends example_task talking_env 1000 True True b =
     b\<lparr>audioProcessor := snd (setupUserAudioCapture_pipeline talking_env example_task (audioProcessor b)),
       captures := [],
       userCooldowns := (userCooldowns b)(''1'' \<mapsto> 11000),
       userWarnings := (userWarnings b)(''1'' := None)\<rparr>"
proof -
  let ?s = "audioProcessor b"
  let ?s1 = "snd (setupUserAudioCapture_pipeline talking_env example_task ?s)"
  have f: "files ?s = Map.empty" and t0: "transcriptions ?s = []"
    using assms(2) by (simp_all add: new_audio_processor_def)
  have t1: "transcriptions ?s1 = [(''1'', ''alice'', ''touchdown'')]"
    using pipeline_talking [OF f] t0 by simp
  have u: "user_id (member_user alice) = ''1''" by (simp add: alice_def example_user_def)
  have d: "sportsDetector (b\<lparr>audioProcessor := ?s1, captures := []\<rparr>) = new_SportsDetector"
    using assms(3) by simp
  show ?thesis
    using assms(1)
    by (simp add: capture_ends_def Let_def t0 t1 kick_touchdown [OF d] u COOLDOWN_MS_def)
qed

lemma scenario_leave:
  "handleVoiceStateUpdate (Some ''99'')
     \<lparr>old_channel = Some ''general'', new_channel = None, vs_member = alice\<rparr> 1001 None b =
   b\<lparr>userWarnings := (userWarnings b)(''1'' := None)\<rparr>"
  by (simp add: handleVoiceStateUpdate_def Let_def alice_def example_user_def)

lemma scenario_rejoin:
  assumes "userCooldowns b ''1'' = Some 11000"
  shows "handleVoiceStateUpdate (Some ''99'')
     \<lparr>old_channel = None, new_channel = Some ''general'', vs_member = alice\<rparr> 2000 None b =
   b\<lparr>cooldownTimers := cooldownTimers b @ [alice]\<rparr>"
  using assms
  by (simp add: handleVoiceStateUpdate_def on_cooldown_def Let_def alice_def example_user_def)

lemma scenario_speak_again:
  assumes "listeners b = [(4, alice)]"
    and "activeUsers (audioProcessor b) = []"
    and "processingQueue (audioProcessor b) = []"
    and "captures b = []"
  shows "captures (speaking_start 4 ''1'' 3000 3000 b) =
           [(\<lparr>task_user = example_user, processingKey = ''1-3000'',
              filename = ''./audio_recordings/1-3000.pcm''\<rparr>, alice)]
       \<and> processingQueue (audioProcessor (speaking_start 4 ''1'' 3000 3000 b)) = [''1-3000'']
       \<and> userCooldowns (speaking_start 4 ''1'' 3000 3000 b) = userCooldowns b"
proof -
  have u: "member_user alice = example_user" "user_id example_user = ''1''"
    by (simp_all add: alice_def example_user_def)
  have d: "decimal 3000 = ''3000''" by (simp add: decimal.simps digit_char_def)
  show ?thesis
    using assms
    by (simp add: speaking_start_def speaking_listener_def u setupUserAudioCapture_admit_def
        js_has_def js_size_def js_add_def MAX_CONCURRENT_def processing_key_def pcm_filename_def
        audioDir_def d Let_def)
qed

text \<open>
  Claim C3 at a failing input. After the run \<open>cooldown_scenario\<close> alice has a cooldown
  entry that expires at 11000 and no capture task exists. A speaker-start event for her at time 3000,
  before the expiry, reaches the listener registered when she was first monitored, and
  \<^verbatim>\<open>setupUserAudioCapture\<close> admits it: a capture task is created under the active cooldown.
\<close>

theorem C3_cooldown_not_enforced:
  "userCooldowns (bot_run cooldown_scenario new_bot) ''1'' = Some 11000
   \<and> on_cooldown (bot_run cooldown_scenario new_bot) ''1'' 3000
   \<and> captures (bot_run cooldown_scenario new_bot) = []
   \<and> captures (bot_run (cooldown_scenario @ [SpeakingStarts 4 ''1'' 3000 3000]) new_bot) =
       [(\<lparr>task_user = example_user, processingKey = ''1-3000'',
          filename = ''./audio_recordings/1-3000.pcm''\<rparr>, alice)]
   \<and> processingQueue (audioProcessor
         (bot_run (cooldown_scenario @ [SpeakingStarts 4 ''1'' 3000 3000]) new_bot)) = [''1-3000'']"
proof -
  define b2 where "b2 = new_bot\<lparr>activeConnections := [''7'' \<mapsto> 4], monitoredUsers := [''7-1''],
           listeners := [(4, alice)],
           audioProcessor := new_audio_processor\<lparr>processingQueue := [''1-0''],
              activeUsers := [''1''], timeouts := [''1-0'']\<rparr>,
           captures := [(example_task, alice)]\<rparr>"
  define s1 where "s1 = snd (setupUserAudioCapture_pipeline talking_env example_task (audioProcessor b2))"
  define b3 where "b3 = b2\<lparr>audioProcessor := s1, captures := [],
       userCooldowns := (userCooldowns b2)(''1'' \<mapsto> 11000),
       userWarnings := (userWarnings b2)(''1'' := None)\<rparr>"
  define b5 where "b5 = b3\<lparr>userWarnings := (userWarnings b3)(''1'' := None),
       cooldownTimers := cooldownTimers b3 @ [alice]\<rparr>"
  have p2: "captures b2 = [(example_task, alice)]"
    "audioProcessor b2 = new_audio_processor\<lparr>processingQueue := [''1-0''],
              activeUsers := [''1''], timeouts := [''1-0'']\<rparr>"
    "sportsDetector b2 = new_SportsDetector"
    by (simp_all add: b2_def new_bot_def)
  have e3: "capture_ends example_task talking_env 1000 True True b2 = b3"
    unfolding b3_def s1_def by (rule scenario_capture_ends [OF p2])
  have c3: "userCooldowns (b3\<lparr>userWarnings := (userWarnings b3)(''1'' := None)\<rparr>) ''1'' = Some 11000"
    by (simp add: b3_def)
  have run: "bot_run cooldown_scenario new_bot = b5"
    unfolding bot_run_def cooldown_scenario_def
    by (simp add: scenario_join scenario_speak b2_def [symmetric] e3 scenario_leave
        scenario_rejoin [OF c3] b5_def)
  have q1: "processingQueue s1 = []" and a1: "activeUsers s1 = []"
    unfolding s1_def
    by (simp_all add: pipeline_processingQueue pipeline_activeUsers talking_env_streams p2
        example_task_def example_user_def js_delete_def)
  have p5: "listeners b5 = [(4, alice)]" "activeUsers (audioProcessor b5) = []"
    "processingQueue (audioProcessor b5) = []" "captures b5 = []"
    "userCooldowns b5 ''1'' = Some 11000"
    by (simp_all add: b5_def b3_def b2_def q1 a1)
  have run': "bot_run (cooldown_scenario @ [SpeakingStarts 4 ''1'' 3000 3000]) new_bot =
      speaking_start 4 ''1'' 3000 3000 b5"
    using run by (simp add: bot_run_def)
  show ?thesis
    unfolding run run'
    using scenario_speak_again [OF p5(1-4)] p5 by (simp add: on_cooldown_def)
qed

section \<open>Properties of the transcription lock\<close>

lemma lock_inv_new: "lock_inv new_lock"
  by (simp add: lock_inv_def new_lock_def)

lemma lock_step_inv:
  assumes "lock_inv s" and "lock_step ev s = Some s1"
  shows "lock_inv s1"
proof (cases ev)
  case (Chain t)
  then have s1: "s1 = s\<lparr>chained := chained s @ [(transcriptionLock s, t)],
             transcriptionLock := Suc (length (chained s))\<rparr>"
    using assms(2) by simp
  have pre: "\<forall>k < length (chained s1). fst (chained s1 ! k) = k"
    using assms(1) unfolding s1 lock_inv_def
    by (auto simp: nth_append less_Suc_eq)
  from assms(1) obtain m where m: "m \<le> length (chained s)" "settled s = [0 ..< Suc m]"
    "(entered s = [1 ..< Suc m] \<and> running s = [])
       \<or> (m < length (chained s) \<and> entered s = [1 ..< Suc (Suc m)] \<and> running s = [Suc m])"
    unfolding lock_inv_def by blast
  show ?thesis
    unfolding lock_inv_def
  proof (intro conjI)
    show "\<forall>k < length (chained s1). fst (chained s1 ! k) = k" by (rule pre)
    show "transcriptionLock s1 = length (chained s1)" by (simp add: s1)
    show "\<exists>m \<le> length (chained s1). settled s1 = [0 ..< Suc m]
            \<and> ((entered s1 = [1 ..< Suc m] \<and> running s1 = [])
               \<or> (m < length (chained s1) \<and> entered s1 = [1 ..< Suc (Suc m)]
                  \<and> running s1 = [Suc m]))"
      using m by (intro exI [of _ m]) (auto simp: s1)
  qed
next
  case (Enter p)
  then have en: "1 \<le> p" "p \<le> length (chained s)" "fst (chained s ! (p - 1)) \<in> set (settled s)"
    "p \<notin> set (entered s)"
    and s1: "s1 = s\<lparr>entered := entered s @ [p], running := running s @ [p]\<rparr>"
    using assms(2) by (auto split: if_splits)
  from assms(1) obtain m where m: "m \<le> length (chained s)" "settled s = [0 ..< Suc m]"
    "(entered s = [1 ..< Suc m] \<and> running s = [])
       \<or> (m < length (chained s) \<and> entered s = [1 ..< Suc (Suc m)] \<and> running s = [Suc m])"
    and pre: "\<forall>k < length (chained s). fst (chained s ! k) = k"
    and lk: "transcriptionLock s = length (chained s)"
    unfolding lock_inv_def by blast
  have "fst (chained s ! (p - 1)) = p - 1" using pre en(1,2) by simp
  then have pm: "p \<le> Suc m" using en(3) m(2) by auto
  from m(3) have A: "entered s = [1 ..< Suc m]" "running s = []" and p: "p = Suc m"
    using en(1,4) pm by auto
  show ?thesis
    unfolding lock_inv_def
  proof (intro conjI)
    show "\<forall>k < length (chained s1). fst (chained s1 ! k) = k" using pre by (simp add: s1)
    show "transcriptionLock s1 = length (chained s1)" using lk by (simp add: s1)
    show "\<exists>m \<le> length (chained s1). settled s1 = [0 ..< Suc m]
            \<and> ((entered s1 = [1 ..< Suc m] \<and> running s1 = [])
               \<or> (m < length (chained s1) \<and> entered s1 = [1 ..< Suc (Suc m)]
                  \<and> running s1 = [Suc m]))"
      using m(1,2) A p en(2) by (intro exI [of _ m]) (simp add: s1)
  qed
next
  case (Exit p)
  then have en: "p \<in> set (running s)"
    and s1: "s1 = s\<lparr>running := remove1 p (running s), settled := settled s @ [p]\<rparr>"
    using assms(2) by (auto split: if_splits)
  from assms(1) obtain m where m: "m \<le> length (chained s)" "settled s = [0 ..< Suc m]"
    "(entered s = [1 ..< Suc m] \<and> running s = [])
       \<or> (m < length (chained s) \<and> entered s = [1 ..< Suc (Suc m)] \<and> running s = [Suc m])"
    and pre: "\<forall>k < length (chained s). fst (chained s ! k) = k"
    and lk: "transcriptionLock s = length (chained s)"
    unfolding lock_inv_def by blast
  from m(3) en have B: "m < length (chained s)" "entered s = [1 ..< Suc (Suc m)]"
    "running s = [Suc m]" and p: "p = Suc m"
    by auto
  show ?thesis
    unfolding lock_inv_def
  proof (intro conjI)
    show "\<forall>k < length (chained s1). fst (chained s1 ! k) = k" using pre by (simp add: s1)
    show "transcriptionLock s1 = length (chained s1)" using lk by (simp add: s1)
    show "\<exists>m \<le> length (chained s1). settled s1 = [0 ..< Suc m]
            \<and> ((entered s1 = [1 ..< Suc m] \<and> running s1 = [])
               \<or> (m < length (chained s1) \<and> entered s1 = [1 ..< Suc (Suc m)]
                  \<and> running s1 = [Suc m]))"
      using m(2) B p by (intro exI [of _ "Suc m"]) (simp add: s1)
  qed
qed

lemma lock_run_inv: "lock_inv s \<Longrightarrow> lock_run evs s = Some s1 \<Longrightarrow> lock_inv s1"
proof (induction evs arbitrary: s)
  case Nil
  then show ?case by simp
next
  case (Cons ev evs)
  then obtain s0 where s0: "lock_step ev s = Some s0" "lock_run evs s0 = Some s1"
    by (auto split: option.splits)
  show ?case using Cons.IH [OF lock_step_inv [OF Cons.prems(1) s0(1)] s0(2)] .
qed

lemma map_nth_upt:
  "e \<le> length xs \<Longrightarrow> map (\<lambda>p. xs ! (p - 1)) [1 ..< Suc e] = take e xs"
  by (rule nth_equalityI) (simp_all del: upt_Suc)

text \<open>
  Claim C1. In every state that the chained recognition calls can reach, at most one call
  is running; the calls that have begun are those of the first tasks that reached the
  chaining point, in that order; when a call has begun, every call chained before it has
  completed; and a call can begin only when none is running, and then it is the next one
  in the order of chaining.
\<close>

theorem C1_recognition_serialized:
  assumes "lock_run evs new_lock = Some s"
  shows "length (running s) \<le> 1
       \<and> map (task_of s) (entered s) = take (length (entered s)) (map snd (chained s))
       \<and> (\<forall>p \<in> set (entered s). \<forall>q. 1 \<le> q \<and> q < p \<longrightarrow> q \<in> set (settled s))
       \<and> (\<forall>p \<in> set (running s). \<forall>q \<in> set (entered s). q \<noteq> p \<longrightarrow> q \<in> set (settled s))
       \<and> (\<forall>p s1. lock_step (Enter p) s = Some s1 \<longrightarrow>
             running s = [] \<and> p = Suc (length (entered s)))"
proof -
  have i: "lock_inv s" using lock_run_inv [OF lock_inv_new assms] .
  then obtain m where m: "m \<le> length (chained s)" "settled s = [0 ..< Suc m]"
    "(entered s = [1 ..< Suc m] \<and> running s = [])
       \<or> (m < length (chained s) \<and> entered s = [1 ..< Suc (Suc m)] \<and> running s = [Suc m])"
    and pre: "\<forall>k < length (chained s). fst (chained s ! k) = k"
    unfolding lock_inv_def by blast
  obtain e where e: "entered s = [1 ..< Suc e]" "e \<le> length (chained s)"
    "e = m \<or> e = Suc m" "running s = (if e = m then [] else [Suc m])"
  proof (rule disjE [OF m(3)])
    assume "entered s = [1 ..< Suc m] \<and> running s = []"
    then show ?thesis using m(1) that [of m] by simp
  next
    assume "m < length (chained s) \<and> entered s = [1 ..< Suc (Suc m)] \<and> running s = [Suc m]"
    then show ?thesis using that [of "Suc m"] by simp
  qed
  have r: "length (running s) \<le> 1" using e(4) by simp
  have "map (task_of s) (entered s) = map (\<lambda>p. map snd (chained s) ! (p - 1)) [1 ..< Suc e]"
    unfolding e(1) using e(2) by (auto simp: task_of_def)
  also have "\<dots> = take e (map snd (chained s))"
    using e(2) map_nth_upt [of e "map snd (chained s)"] by simp
  finally have fifo: "map (task_of s) (entered s) = take (length (entered s)) (map snd (chained s))"
    by (simp add: e(1))
  have before: "\<forall>p \<in> set (entered s). \<forall>q. 1 \<le> q \<and> q < p \<longrightarrow> q \<in> set (settled s)"
    using e(1,3) m(2) by auto
  have others: "\<forall>p \<in> set (running s). \<forall>q \<in> set (entered s). q \<noteq> p \<longrightarrow> q \<in> set (settled s)"
    using e(1,3,4) m(2) by auto
  have next_only: "running s = [] \<and> p = Suc (length (entered s))"
    if en: "lock_step (Enter p) s = Some s1" for p s1
  proof -
    from en have c: "1 \<le> p" "p \<le> length (chained s)" "fst (chained s ! (p - 1)) \<in> set (settled s)"
      "p \<notin> set (entered s)"
      by (auto split: if_splits)
    have "fst (chained s ! (p - 1)) = p - 1" using pre c(1,2) by simp
    then have "p \<le> Suc m" using c(3) m(2) by auto
    then show ?thesis using c(1,4) e by auto
  qed
  show ?thesis using r fifo before others next_only by blast
qed

theorem C1_recognition_serialized_witness:
  "lock_run [Chain 10, Chain 20, Enter 1, Chain 30, Exit 1, Enter 2] new_lock =
     Some \<lparr>transcriptionLock = 3, chained = [(0, 10), (1, 20), (2, 30)], settled = [0, 1],
           entered = [1, 2], running = [2]\<rparr>
   \<and> lock_step (Enter 3)
        \<lparr>transcriptionLock = 3, chained = [(0, 10), (1, 20), (2, 30)], settled = [0, 1],
         entered = [1, 2], running = [2]\<rparr> = None
   \<and> map (task_of \<lparr>transcriptionLock = 3, chained = [(0, 10), (1, 20), (2, 30)], settled = [0, 1],
           entered = [1, 2], running = [2]\<rparr>) [1, 2] = [10, 20]"
proof -
  have run: "lock_run [Chain 10, Chain 20, Enter 1, Chain 30, Exit 1, Enter 2] new_lock =
     Some \<lparr>transcriptionLock = 3, chained = [(0, 10), (1, 20), (2, 30)], settled = [0, 1],
           entered = [1, 2], running = [2]\<rparr>"
    by (simp add: new_lock_def)
  show ?thesis
    using run C1_recognition_serialized [OF run] by simp
qed

end
